theory Spec2Isabelle
  imports Main "HOL-Library.AList" "HOL-Library.Sublist" "HOL-Library.Multiset"
begin

section \<open>Strings and paths\<close>

text \<open>
  A path is the list of its components, outermost first; the empty list is the root of
  the file system.  A component is a \<^typ>\<open>string\<close>.  File names are taken to be ASCII, and
  \<open>str.lower\<close> is the ASCII lowering of the letters \<open>A\<close> to \<open>Z\<close>.
\<close>

type_synonym path = "string list"

definition lower_char :: "char \<Rightarrow> char" where
  "lower_char c =
     (case map_of (zip ''ABCDEFGHIJKLMNOPQRSTUVWXYZ'' ''abcdefghijklmnopqrstuvwxyz'') c of
        None \<Rightarrow> c
      | Some d \<Rightarrow> d)"

definition lower :: "string \<Rightarrow> string" where
  "lower s = map lower_char s"

text \<open>\<open>s.endswith(t)\<close> and \<open>s.startswith(t)\<close>.\<close>

definition endswith :: "string \<Rightarrow> string \<Rightarrow> bool" where
  "endswith s t \<longleftrightarrow> length t \<le> length s \<and> drop (length s - length t) s = t"

definition startswith :: "string \<Rightarrow> string \<Rightarrow> bool" where
  "startswith s t \<longleftrightarrow> take (length t) s = t"

text \<open>
  \<open>s.rfind(c)\<close> for a single character: the highest index at which \<open>c\<close> occurs, and
  \<open>None\<close> where Python returns \<open>-1\<close>.
\<close>

definition rfind :: "string \<Rightarrow> char \<Rightarrow> nat option" where
  "rfind s c =
     (if c \<in> set s then Some (length s - Suc (length (takeWhile (\<lambda>x. x \<noteq> c) (rev s))))
      else None)"

text \<open>
  The \<open>pathlib\<close> properties \<open>name\<close>, \<open>parent\<close>, \<open>suffix\<close> and \<open>stem\<close>, and the operator
  \<open>/\<close> that appends one component.  \<open>suffix\<close> and \<open>stem\<close> split the name at its last
  dot when that dot is neither the first nor the last character of the name, as
  \<open>pathlib\<close> does from Python 3.4 to 3.13.
\<close>

definition name_of :: "path \<Rightarrow> string" where
  "name_of p = (if p = [] then [] else last p)"

definition parent :: "path \<Rightarrow> path" where
  "parent p = butlast p"

definition child :: "path \<Rightarrow> string \<Rightarrow> path" where
  "child p n = p @ [n]"

definition suffix_of :: "string \<Rightarrow> string" where
  "suffix_of n =
     (case rfind n CHR ''.'' of
        None \<Rightarrow> []
      | Some i \<Rightarrow> if 0 < i \<and> Suc i < length n then drop i n else [])"

definition stem_of :: "string \<Rightarrow> string" where
  "stem_of n =
     (case rfind n CHR ''.'' of
        None \<Rightarrow> n
      | Some i \<Rightarrow> if 0 < i \<and> Suc i < length n then take i n else n)"

section \<open>The classifier\<close>

definition EXT_MAP :: "(string \<times> string) list" where
  "EXT_MAP =
    [(''.jpg'', ''Images''), (''.jpeg'', ''Images''), (''.png'', ''Images''),
     (''.gif'', ''Images''), (''.bmp'', ''Images''), (''.tiff'', ''Images''),
     (''.svg'', ''Images''),
     (''.pdf'', ''Documents''), (''.doc'', ''Documents''), (''.docx'', ''Documents''),
     (''.txt'', ''Documents''), (''.odt'', ''Documents''), (''.rtf'', ''Documents''),
     (''.xls'', ''Documents''), (''.xlsx'', ''Documents''), (''.ppt'', ''Documents''),
     (''.pptx'', ''Documents''),
     (''.mp3'', ''Audio''), (''.wav'', ''Audio''), (''.aac'', ''Audio''),
     (''.flac'', ''Audio''), (''.ogg'', ''Audio''),
     (''.mp4'', ''Video''), (''.mkv'', ''Video''), (''.mov'', ''Video''),
     (''.avi'', ''Video''), (''.wmv'', ''Video''),
     (''.zip'', ''Archives''), (''.rar'', ''Archives''), (''.7z'', ''Archives''),
     (''.tar'', ''Archives''), (''.gz'', ''Archives''),
     (''.py'', ''Code''), (''.js'', ''Code''), (''.java'', ''Code''), (''.c'', ''Code''),
     (''.cpp'', ''Code''), (''.html'', ''Code''), (''.css'', ''Code''), (''.sh'', ''Code'')]"

text \<open>
  \<open>MULTI_EXTENSIONS\<close> is a Python set, iterated in an order the language does not fix.
  The list below is one such order; \<open>get_extension_lower_order\<close> shows that the other
  order gives the same result.
\<close>

definition MULTI_EXTENSIONS :: "string list" where
  "MULTI_EXTENSIONS = [''.tar.gz'', ''tar.bz2'']"

fun first_suffix :: "string \<Rightarrow> string list \<Rightarrow> string option" where
  "first_suffix n [] = None"
| "first_suffix n (t # ts) = (if endswith n t then Some t else first_suffix n ts)"

definition extension_lower_in :: "string list \<Rightarrow> path \<Rightarrow> string" where
  "extension_lower_in multi p =
     (case first_suffix (lower (name_of p)) multi of
        Some t \<Rightarrow> t
      | None \<Rightarrow> lower (suffix_of (name_of p)))"

definition get_extension_lower :: "path \<Rightarrow> string" where
  "get_extension_lower p = extension_lower_in MULTI_EXTENSIONS p"

definition resolve_category :: "string \<Rightarrow> string" where
  "resolve_category ext = (case map_of EXT_MAP ext of None \<Rightarrow> ''Others'' | Some c \<Rightarrow> c)"

text \<open>The names that \<open>set(EXT_MAP.values()) | {"Others"}\<close> holds.\<close>

definition category_labels :: "string list" where
  "category_labels = remdups (map snd EXT_MAP) @ [''Others'']"

section \<open>The file system\<close>

text \<open>
  The file system is a tree.  A directory holds its entries in listing order, each with
  its name, whether the entry itself is a symbolic link, and the node that the entry
  resolves to: a regular file, a directory, something that is neither (\<open>Special\<close>: a
  device, a fifo, a socket), or nothing (\<open>Broken\<close>: a dangling link).  A link to a
  directory carries the entries seen through it; two paths never share a node, so a
  change made through one path is not seen through another.  A directory has two
  permissions: \<open>readable\<close> (it may be listed) and \<open>writable\<close> (entries may be added to it
  and removed from it).  Files have no content, and looking a path up never raises.
\<close>

datatype node =
    File
  | Special
  | Broken
  | Dir (readable: bool) (writable: bool) (entries: "(string \<times> bool \<times> node) list")

type_synonym entry = "bool \<times> node"

datatype os_error =
    PermissionError
  | FileExistsError
  | FileNotFoundError
  | NotADirectoryError
  | ShutilError

definition str_of :: "os_error \<Rightarrow> string" where
  "str_of e =
     (case e of
        PermissionError \<Rightarrow> ''[Errno 13] Permission denied''
      | FileExistsError \<Rightarrow> ''[Errno 17] File exists''
      | FileNotFoundError \<Rightarrow> ''[Errno 2] No such file or directory''
      | NotADirectoryError \<Rightarrow> ''[Errno 20] Not a directory''
      | ShutilError \<Rightarrow> ''Destination path already exists'')"

fun walk :: "entry \<Rightarrow> path \<Rightarrow> entry option" where
  "walk e [] = Some e"
| "walk (l, Dir r w es) (x # xs) = (case map_of es x of None \<Rightarrow> None | Some e' \<Rightarrow> walk e' xs)"
| "walk (l, n) (x # xs) = None"

definition entry_at :: "node \<Rightarrow> path \<Rightarrow> entry option" where
  "entry_at fs p = walk (False, fs) p"

text \<open>
  \<open>Path.exists\<close>, \<open>is_dir\<close> and \<open>is_file\<close> follow links and answer \<open>False\<close> where the
  path does not resolve; \<open>is_symlink\<close> looks at the entry itself.
\<close>

definition exists :: "node \<Rightarrow> path \<Rightarrow> bool" where
  "exists fs p = (case entry_at fs p of None \<Rightarrow> False | Some (l, n) \<Rightarrow> n \<noteq> Broken)"

definition is_dir :: "node \<Rightarrow> path \<Rightarrow> bool" where
  "is_dir fs p = (case entry_at fs p of Some (l, Dir r w es) \<Rightarrow> True | _ \<Rightarrow> False)"

definition is_file :: "node \<Rightarrow> path \<Rightarrow> bool" where
  "is_file fs p = (case entry_at fs p of Some (l, File) \<Rightarrow> True | _ \<Rightarrow> False)"

definition is_symlink :: "node \<Rightarrow> path \<Rightarrow> bool" where
  "is_symlink fs p = (case entry_at fs p of None \<Rightarrow> False | Some (l, n) \<Rightarrow> l)"

text \<open>\<open>Path.iterdir\<close>: the children of a directory, in listing order.\<close>

definition iterdir :: "node \<Rightarrow> path \<Rightarrow> os_error + path list" where
  "iterdir fs p =
     (case entry_at fs p of
        None \<Rightarrow> Inl FileNotFoundError
      | Some (l, Dir r w es) \<Rightarrow>
          if r then Inr (map (\<lambda>(k, e). child p k) es) else Inl PermissionError
      | Some (l, Broken) \<Rightarrow> Inl FileNotFoundError
      | Some (l, n) \<Rightarrow> Inl NotADirectoryError)"

text \<open>\<open>update_dir p f fs\<close> applies \<open>f\<close> to the entries of the directory at \<open>p\<close>.\<close>

fun update_dir :: "path \<Rightarrow> ((string \<times> entry) list \<Rightarrow> (string \<times> entry) list) \<Rightarrow> node \<Rightarrow> node" where
  "update_dir [] f (Dir r w es) = Dir r w (f es)"
| "update_dir (x # xs) f (Dir r w es) =
     Dir r w (map (\<lambda>(k, l, n). if k = x then (k, l, update_dir xs f n) else (k, l, n)) es)"
| "update_dir p f n = n"

text \<open>
  \<open>os.mkdir\<close>: the path must be free, and its parent a writable directory.  The new
  directory is empty and comes last in the listing of its parent.
\<close>

definition os_mkdir :: "node \<Rightarrow> path \<Rightarrow> os_error + node" where
  "os_mkdir fs p =
     (case entry_at fs p of
        Some e \<Rightarrow> Inl FileExistsError
      | None \<Rightarrow>
         (case entry_at fs (parent p) of
            None \<Rightarrow> Inl FileNotFoundError
          | Some (l, Dir r w es) \<Rightarrow>
              if w then Inr (update_dir (parent p)
                               (AList.update (name_of p) (False, Dir True True [])) fs)
              else Inl PermissionError
          | Some (l, Broken) \<Rightarrow> Inl FileNotFoundError
          | Some (l, n) \<Rightarrow> Inl NotADirectoryError))"

text \<open>
  \<open>Path.mkdir(parents=True, exist_ok=True)\<close>: a missing parent is created first, and
  any other failure is forgiven when the path is a directory already.
\<close>

function mkdir :: "node \<Rightarrow> path \<Rightarrow> os_error + node" where
  "mkdir fs p =
     (case os_mkdir fs p of
        Inr fs' \<Rightarrow> Inr fs'
      | Inl e \<Rightarrow>
          if e = FileNotFoundError then
            (if parent p = p then Inl e
             else (case mkdir fs (parent p) of
                     Inl e' \<Rightarrow> Inl e'
                   | Inr fs' \<Rightarrow>
                      (case os_mkdir fs' p of
                         Inr fs'' \<Rightarrow> Inr fs''
                       | Inl e' \<Rightarrow> if is_dir fs' p then Inr fs' else Inl e')))
          else if is_dir fs p then Inr fs else Inl e)"
  by pat_completeness auto
termination
proof (relation "measure (\<lambda>(fs, p). length p)")
  fix fs :: node and p :: path
  assume "parent p \<noteq> p"
  then have "p \<noteq> []" by (auto simp: parent_def)
  then show "((fs, parent p), (fs, p)) \<in> measure (\<lambda>(fs, p). length p)"
    by (simp add: parent_def)
qed simp

declare mkdir.simps [simp del]

section \<open>The collision resolver\<close>

text \<open>The decimal numeral that \<open>f"{i}"\<close> produces for a natural number.\<close>

definition digit :: "nat \<Rightarrow> char" where
  "digit d = ''0123456789'' ! d"

fun str_nat :: "nat \<Rightarrow> string" where
  "str_nat n = (if n < 10 then [digit n] else str_nat (n div 10) @ [digit (n mod 10)])"

declare str_nat.simps [simp del]

definition candidate_name :: "string \<Rightarrow> string \<Rightarrow> nat \<Rightarrow> string" where
  "candidate_name stem sfx i = stem @ ''_'' @ str_nat i @ sfx"

text \<open>
  The loop of \<open>make_unique_target\<close> ends because the candidate names are pairwise
  different and a directory holds finitely many entries.
\<close>

lemma digit_inj: "a < 10 \<Longrightarrow> b < 10 \<Longrightarrow> digit a = digit b \<Longrightarrow> a = b"
proof -
  assume "a < 10" "b < 10" "digit a = digit b"
  moreover have "distinct ''0123456789''" by simp
  moreover have "length ''0123456789'' = 10" by simp
  ultimately show "a = b"
    unfolding digit_def by (metis nth_eq_iff_index_eq)
qed

lemma str_nat_nonempty: "str_nat n \<noteq> []"
  by (subst str_nat.simps) simp

lemma str_nat_inj: "str_nat a = str_nat b \<Longrightarrow> a = b"
proof (induction a arbitrary: b rule: str_nat.induct)
  case (1 n)
  show ?case
  proof (cases "n < 10")
    case True
    with "1.prems" have b: "b < 10"
      using str_nat_nonempty [of "b div 10"]
      by (subst (asm) (1 2) str_nat.simps) (auto split: if_splits)
    with True "1.prems" have "digit n = digit b"
      by (subst (asm) (1 2) str_nat.simps) simp
    with True b show ?thesis by (rule digit_inj)
  next
    case False
    with "1.prems" have b: "\<not> b < 10"
      using str_nat_nonempty [of "n div 10"]
      by (subst (asm) (1 2) str_nat.simps) (auto split: if_splits)
    with False "1.prems" have "str_nat (n div 10) = str_nat (b div 10)" "digit (n mod 10) = digit (b mod 10)"
      by (subst (asm) (1 2) str_nat.simps, simp)+
    with "1.IH" [OF False] have "n div 10 = b div 10" "n mod 10 = b mod 10"
      by (auto intro: digit_inj)
    then show ?thesis by (metis div_mult_mod_eq)
  qed
qed

lemma candidate_name_inj: "inj (candidate_name stem sfx)"
  by (rule injI) (simp add: candidate_name_def str_nat_inj)

lemma walk_snoc:
  "walk e (p @ [x]) =
     (case walk e p of Some (l, Dir r w es) \<Rightarrow> map_of es x | _ \<Rightarrow> None)"
proof (induction p arbitrary: e)
  case Nil
  obtain l n where "e = (l, n)" by (cases e)
  then show ?case by (cases n) (auto split: option.splits)
next
  case (Cons y ys)
  obtain l n where "e = (l, n)" by (cases e)
  with Cons show ?case by (cases n) (auto split: option.splits)
qed

lemma entry_at_child:
  "entry_at fs (child d x) =
     (case entry_at fs d of Some (l, Dir r w es) \<Rightarrow> map_of es x | _ \<Rightarrow> None)"
  by (simp add: entry_at_def child_def walk_snoc)

lemma exists_child_listed:
  assumes "exists fs (child d x)"
  shows "\<exists>l r w es. entry_at fs d = Some (l, Dir r w es) \<and> x \<in> fst ` set es"
proof -
  from assms obtain e where e: "entry_at fs (child d x) = Some e"
    by (auto simp: exists_def split: option.splits)
  then obtain l r w es where d: "entry_at fs d = Some (l, Dir r w es)" and m: "map_of es x = Some e"
    unfolding entry_at_child by (auto split: option.splits node.splits)
  from m have "(x, e) \<in> set es" by (rule map_of_SomeD)
  then have "x \<in> fst ` set es" by force
  with d show ?thesis by blast
qed

lemma finite_candidates: "finite {j. exists fs (child d (candidate_name stem sfx j))}"
proof (cases "\<exists>l r w es. entry_at fs d = Some (l, Dir r w es)")
  case True
  then obtain l r w es where d: "entry_at fs d = Some (l, Dir r w es)" by blast
  have "finite (candidate_name stem sfx -` (fst ` set es))"
    by (rule finite_vimageI) (simp_all add: candidate_name_inj)
  moreover have "{j. exists fs (child d (candidate_name stem sfx j))}
      \<subseteq> candidate_name stem sfx -` (fst ` set es)"
    using exists_child_listed [of fs d] d by auto
  ultimately show ?thesis by (rule rev_finite_subset)
next
  case False
  then have "{j. exists fs (child d (candidate_name stem sfx j))} = {}"
    using exists_child_listed [of fs d] by blast
  then show ?thesis by simp
qed

text \<open>
  The loop \<open>while True\<close> of \<open>make_unique_target\<close>, entered with the counter \<open>i\<close>.
\<close>

function first_free :: "node \<Rightarrow> path \<Rightarrow> string \<Rightarrow> string \<Rightarrow> nat \<Rightarrow> path" where
  "first_free fs d stem sfx i =
     (let candidate = child d (candidate_name stem sfx i)
      in if \<not> exists fs candidate then candidate else first_free fs d stem sfx (i + 1))"
  by pat_completeness auto
termination
proof (relation "measure (\<lambda>(fs, d, stem, sfx, i).
          card {j. i \<le> j \<and> exists fs (child d (candidate_name stem sfx j))})")
  fix fs d stem sfx i candidate
  assume c: "candidate = child d (candidate_name stem sfx i)" and "\<not> \<not> exists fs candidate"
  let ?S = "\<lambda>i. {j. i \<le> j \<and> exists fs (child d (candidate_name stem sfx j))}"
  have fin: "finite (?S i)"
    using finite_candidates [of fs d stem sfx] by (rule rev_finite_subset) auto
  have "i \<in> ?S i" using c \<open>\<not> \<not> exists fs candidate\<close> by simp
  moreover have "i \<notin> ?S (i + 1)" by simp
  moreover have "?S (i + 1) \<subseteq> ?S i" by auto
  ultimately have "?S (i + 1) \<subset> ?S i" by blast
  with fin have "card (?S (i + 1)) < card (?S i)" by (rule psubset_card_mono)
  then show "((fs, d, stem, sfx, i + 1), (fs, d, stem, sfx, i))
      \<in> measure (\<lambda>(fs, d, stem, sfx, i).
          card {j. i \<le> j \<and> exists fs (child d (candidate_name stem sfx j))})"
    by simp
qed simp

declare first_free.simps [simp del]

definition make_unique_target :: "node \<Rightarrow> path \<Rightarrow> path" where
  "make_unique_target fs target =
     (if \<not> exists fs target then target
      else first_free fs (parent target) (stem_of (name_of target)) (suffix_of (name_of target)) 1)"

section \<open>Moving an entry\<close>

definition remove_entry :: "path \<Rightarrow> node \<Rightarrow> node" where
  "remove_entry p fs = update_dir (parent p) (AList.delete (name_of p)) fs"

definition put_entry :: "path \<Rightarrow> entry \<Rightarrow> node \<Rightarrow> node" where
  "put_entry p e fs = update_dir (parent p) (AList.update (name_of p) e) fs"

definition writable_dir :: "node \<Rightarrow> path \<Rightarrow> bool" where
  "writable_dir fs p = (case entry_at fs p of Some (l, Dir r w es) \<Rightarrow> w | _ \<Rightarrow> False)"

text \<open>
  \<open>shutil.move(src, dst)\<close>.  A directory as destination receives the entry under its own
  name, unless that name is taken.  Otherwise \<open>os.rename\<close> carries the entry over, which
  needs both parent directories writable and replaces what stands at the destination.
  When the rename is refused, \<open>shutil\<close> copies the entry to the destination and then
  unlinks the source: with a writable destination directory and a read-only source
  directory the copy is made at a free destination and the unlink raises.  The walker
  passes a source for which \<open>is_file\<close> holds and a destination for which \<open>exists\<close> is
  false; a directory is only ever carried over by the rename.
\<close>

definition move :: "node \<Rightarrow> path \<Rightarrow> path \<Rightarrow> node \<times> os_error option" where
  "move fs src dst =
     (let real_dst = (if is_dir fs dst then child dst (name_of src) else dst)
      in if is_dir fs dst \<and> exists fs real_dst then (fs, Some ShutilError)
         else
          (case entry_at fs src of
             None \<Rightarrow> (fs, Some FileNotFoundError)
           | Some e \<Rightarrow>
              if src = real_dst then (fs, None)
              else if take (length src) real_dst = src then (fs, Some ShutilError)
              else
               (case entry_at fs (parent real_dst) of
                  None \<Rightarrow> (fs, Some FileNotFoundError)
                | Some (l, Dir r w es) \<Rightarrow>
                    if \<not> w then (fs, Some PermissionError)
                    else if writable_dir fs (parent src)
                      then (put_entry real_dst e (remove_entry src fs), None)
                    else if entry_at fs real_dst = None
                      then (put_entry real_dst e fs, Some PermissionError)
                    else (fs, Some PermissionError)
                | Some (l, Broken) \<Rightarrow> (fs, Some FileNotFoundError)
                | Some (l, n) \<Rightarrow> (fs, Some NotADirectoryError))))"

section \<open>The tree walker\<close>

text \<open>
  The arguments of \<open>organize_iterative\<close>, the lines it prints while it walks, and the
  variables of its loop together with the file system \<open>disk\<close>.  \<open>stack\<close> is the Python list:
  \<open>append\<close> adds at the end and \<open>pop\<close> takes the last element.  \<open>summary\<close> is the
  \<open>defaultdict(int)\<close> in insertion order.
\<close>

record config =
  root :: path
  dry_run :: bool
  include_hidden :: bool
  follow_symlinks :: bool

datatype line =
    WouldMove path path
  | Moved path path
  | ErrorMoving path string
  | PermissionErrorAccessing path string
  | ErrorReading path string

record run =
  disk :: node
  stack :: "path list"
  summary :: "(string \<times> nat) list"
  errors :: "(path \<times> string) list"
  processed :: nat
  printed :: "line list"

definition count_of :: "(string \<times> nat) list \<Rightarrow> string \<Rightarrow> nat" where
  "count_of s c = (case map_of s c of None \<Rightarrow> 0 | Some n \<Rightarrow> n)"

text \<open>\<open>summary[category] += 1\<close>.\<close>

definition increment :: "string \<Rightarrow> (string \<times> nat) list \<Rightarrow> (string \<times> nat) list" where
  "increment c s = AList.update c (count_of s c + 1) s"

text \<open>
  The body of the \<open>for\<close> loop for one entry.  \<open>Inl (e, st)\<close> is the exception \<open>e\<close> leaving
  the body in state \<open>st\<close>; the failures of \<open>make_unique_target\<close> and \<open>shutil.move\<close> are
  caught inside the body.
\<close>

definition process_entry :: "config \<Rightarrow> path \<Rightarrow> run \<Rightarrow> (os_error \<times> run) + run" where
  "process_entry c entry st =
     (if \<not> include_hidden c \<and> startswith (name_of entry) ''.'' then Inr st
      else if is_symlink (disk st) entry \<and> \<not> follow_symlinks c then Inr st
      else if is_dir (disk st) entry then
        (if name_of entry \<in> set category_labels then Inr st
         else Inr (st\<lparr>stack := stack st @ [entry]\<rparr>))
      else if is_file (disk st) entry then
        (let st1 = st\<lparr>processed := processed st + 1\<rparr>;
             ext = get_extension_lower entry;
             category = resolve_category ext;
             target_dir = child (root c) category
         in case mkdir (disk st1) target_dir of
              Inl e \<Rightarrow> Inl (e, st1)
            | Inr fs1 \<Rightarrow>
               (let st2 = st1\<lparr>disk := fs1\<rparr>;
                    target_path = child target_dir (name_of entry)
                in if dry_run c then
                     Inr (st2\<lparr>printed := printed st2 @ [WouldMove entry target_path],
                              summary := increment category (summary st2)\<rparr>)
                   else
                    (let unique_target = make_unique_target (disk st2) target_path
                     in case move (disk st2) entry unique_target of
                          (fs2, None) \<Rightarrow>
                            Inr (st2\<lparr>disk := fs2,
                                     printed := printed st2 @ [Moved entry unique_target],
                                     summary := increment category (summary st2)\<rparr>)
                        | (fs2, Some e) \<Rightarrow>
                            Inr (st2\<lparr>disk := fs2,
                                     errors := errors st2 @ [(entry, str_of e)],
                                     printed := printed st2 @ [ErrorMoving entry (str_of e)]\<rparr>))))
      else Inr st)"

fun for_entries :: "config \<Rightarrow> path list \<Rightarrow> run \<Rightarrow> (os_error \<times> run) + run" where
  "for_entries c [] st = Inr st"
| "for_entries c (entry # rest) st =
     (case process_entry c entry st of
        Inl x \<Rightarrow> Inl x
      | Inr st' \<Rightarrow> for_entries c rest st')"

text \<open>The two handlers of the outer \<open>try\<close>.\<close>

definition handle_listing :: "path \<Rightarrow> os_error \<Rightarrow> run \<Rightarrow> run" where
  "handle_listing current e st =
     (if e = PermissionError then
        st\<lparr>errors := errors st @ [(current, ''PermissionError: '' @ str_of e)],
           printed := printed st @ [PermissionErrorAccessing current (str_of e)]\<rparr>
      else
        st\<lparr>errors := errors st @ [(current, str_of e)],
           printed := printed st @ [ErrorReading current (str_of e)]\<rparr>)"

text \<open>The body of the \<open>while\<close> loop, after \<open>current\<close> has been popped.\<close>

definition visit :: "config \<Rightarrow> path \<Rightarrow> run \<Rightarrow> run" where
  "visit c current st =
     (case iterdir (disk st) current of
        Inl e \<Rightarrow> handle_listing current e st
      | Inr listing \<Rightarrow>
         (case for_entries c listing st of
            Inl (e, st') \<Rightarrow> handle_listing current e st'
          | Inr st' \<Rightarrow> st'))"

partial_function (option) while_stack :: "config \<Rightarrow> run \<Rightarrow> run option" where
  "while_stack c st =
     (if stack st = [] then Some st
      else while_stack c (visit c (last (stack st)) (st\<lparr>stack := butlast (stack st)\<rparr>)))"

declare while_stack.simps [code]

datatype error = ValueError path

definition start :: "config \<Rightarrow> node \<Rightarrow> run" where
  "start c fs0 =
     \<lparr>disk = fs0, stack = [root c], summary = [], errors = [], processed = 0, printed = []\<rparr>"

text \<open>
  \<open>organize_iterative\<close> on the file system \<open>fs0\<close>.  The result is \<open>None\<close> when the walk
  does not end, \<open>Inl\<close> with the file system as it stands when \<open>ValueError\<close> is raised, and
  otherwise the final state, from which the summary is printed.
\<close>

definition organize_iterative :: "config \<Rightarrow> node \<Rightarrow> ((error \<times> node) + run) option" where
  "organize_iterative c fs0 =
     (if \<not> exists fs0 (root c) \<or> \<not> is_dir fs0 (root c) then Some (Inl (ValueError (root c), fs0))
      else map_option Inr (while_stack c (start c fs0)))"

section \<open>What a walk is expected to do\<close>

text \<open>
  The notions below are not in the source; the statements about whole walks are
  written with them.

  A tree is well formed when no directory lists a name twice.
\<close>

fun wf_node :: "node \<Rightarrow> bool" where
  "wf_node (Dir r w es) \<longleftrightarrow> distinct (map fst es) \<and> (\<forall>e \<in> set es. wf_node (snd (snd e)))"
| "wf_node n \<longleftrightarrow> True"

text \<open>
  A path is walkable when it is the root or lies below it with no category label among
  the components after the root.
\<close>

definition walkable :: "config \<Rightarrow> path \<Rightarrow> bool" where
  "walkable c p \<longleftrightarrow>
     (\<exists>rel. p = root c @ rel \<and> (\<forall>x \<in> set rel. x \<notin> set category_labels))"

text \<open>The hidden-file and symbolic-link filters, for an entry named \<open>k\<close> with link flag \<open>l\<close>.\<close>

definition passes :: "config \<Rightarrow> string \<Rightarrow> bool \<Rightarrow> bool" where
  "passes c k l \<longleftrightarrow>
     \<not> (\<not> include_hidden c \<and> startswith k ''.'') \<and> \<not> (l \<and> \<not> follow_symlinks c)"

text \<open>
  The files under the directory \<open>n\<close> at path \<open>p\<close>, as the specification describes the
  traversal: an entry that a filter rejects is left out with all below it, a directory
  named like a category is not entered, a directory that cannot be listed yields
  nothing, and every regular file met is listed.
\<close>

fun files_under :: "config \<Rightarrow> path \<Rightarrow> node \<Rightarrow> path list" where
  "files_under c p (Dir r w es) =
     (if \<not> r then []
      else concat (map (\<lambda>e.
        if \<not> passes c (fst e) (fst (snd e)) then []
        else if snd (snd e) = File then [child p (fst e)]
        else if fst e \<in> set category_labels then []
        else files_under c (child p (fst e)) (snd (snd e))) es))"
| "files_under c p n = []"

text \<open>
  The category directories can be made when each of them is a directory already, or its
  name is free in a root that is writable: then \<open>mkdir\<close> does not fail.
\<close>

definition creatable :: "config \<Rightarrow> node \<Rightarrow> bool" where
  "creatable c fs \<longleftrightarrow>
     (\<forall>cat \<in> set category_labels.
        is_dir fs (child (root c) cat)
        \<or> (entry_at fs (child (root c) cat) = None \<and> writable_dir fs (root c)))"

text \<open>
  In the tree of this theory a symbolic link has a copy of what it points to, while on a
  real file system a move made through one path is seen through every link to the same
  place.  The two agree on a walk that goes through no link.  With \<open>follow_symlinks\<close>
  that is a root with no link below it.  Without it the walk skips every link, and the
  only entries it could go through are the category directories of the root, into which
  it moves files: these must not be links.
\<close>

fun link_free :: "node \<Rightarrow> bool" where
  "link_free (Dir r w es) \<longleftrightarrow> (\<forall>e \<in> set es. \<not> fst (snd e) \<and> link_free (snd (snd e)))"
| "link_free n \<longleftrightarrow> True"

definition no_shared_links :: "config \<Rightarrow> (string \<times> entry) list \<Rightarrow> bool" where
  "no_shared_links c es \<longleftrightarrow>
     (if follow_symlinks c then link_free (Dir True True es)
      else (\<forall>e \<in> set es. fst e \<in> set category_labels \<longrightarrow> \<not> fst (snd e)))"

text \<open>What the printed lines tell: the files handled, and the failed listings.\<close>

fun source_of :: "line \<Rightarrow> path list" where
  "source_of (WouldMove s d) = [s]"
| "source_of (Moved s d) = [s]"
| "source_of (ErrorMoving s m) = [s]"
| "source_of (PermissionErrorAccessing d m) = []"
| "source_of (ErrorReading d m) = []"

definition sources :: "line list \<Rightarrow> path list" where
  "sources ls = concat (map source_of ls)"

fun is_move :: "line \<Rightarrow> bool" where
  "is_move (WouldMove s d) = True"
| "is_move (Moved s d) = True"
| "is_move (ErrorMoving s m) = False"
| "is_move (PermissionErrorAccessing d m) = False"
| "is_move (ErrorReading d m) = False"

fun is_move_error :: "line \<Rightarrow> bool" where
  "is_move_error (WouldMove s d) = False"
| "is_move_error (Moved s d) = False"
| "is_move_error (ErrorMoving s m) = True"
| "is_move_error (PermissionErrorAccessing d m) = False"
| "is_move_error (ErrorReading d m) = False"

fun is_failed_listing :: "line \<Rightarrow> bool" where
  "is_failed_listing (WouldMove s d) = False"
| "is_failed_listing (Moved s d) = False"
| "is_failed_listing (ErrorMoving s m) = False"
| "is_failed_listing (PermissionErrorAccessing d m) = True"
| "is_failed_listing (ErrorReading d m) = True"

text \<open>
  Two paths are apart when neither is a prefix of the other.  A path is off the
  categories when it is apart from every category directory of the root.
\<close>

definition apart :: "path \<Rightarrow> path \<Rightarrow> bool" where
  "apart p q \<longleftrightarrow> \<not> prefix p q \<and> \<not> prefix q p"

definition off_categories :: "config \<Rightarrow> path \<Rightarrow> bool" where
  "off_categories c q \<longleftrightarrow> (\<forall>cat \<in> set category_labels. apart (child (root c) cat) q)"

text \<open>
  \<open>same_kind fs q fs'\<close>: the path \<open>q\<close> resolves in \<open>fs'\<close> as in \<open>fs\<close>, or to the same
  directory with other entries.
\<close>

definition same_kind :: "node \<Rightarrow> path \<Rightarrow> node \<Rightarrow> bool" where
  "same_kind fs q fs' \<longleftrightarrow>
     entry_at fs' q = entry_at fs q
     \<or> (\<exists>l r w es es'. entry_at fs q = Some (l, Dir r w es)
                       \<and> entry_at fs' q = Some (l, Dir r w es'))"

text \<open>
  \<open>edits c t fs fs'\<close>: \<open>fs'\<close> differs from \<open>fs\<close> only at \<open>t\<close>, below \<open>t\<close>, and in the
  category directories of the root, where what was there has kept its kind and what has
  come is a directory.
\<close>

definition edits :: "config \<Rightarrow> path \<Rightarrow> node \<Rightarrow> node \<Rightarrow> bool" where
  "edits c t fs fs' \<longleftrightarrow>
     (\<forall>q. apart t q \<and> off_categories c q \<longrightarrow> entry_at fs' q = entry_at fs q)
     \<and> (\<forall>cat \<in> set category_labels.
          apart t (child (root c) cat) \<and> entry_at fs (child (root c) cat) \<noteq> None
            \<longrightarrow> same_kind fs (child (root c) cat) fs')
     \<and> (\<forall>cat \<in> set category_labels.
          apart t (child (root c) cat) \<and> entry_at fs (child (root c) cat) = None
            \<longrightarrow> entry_at fs' (child (root c) cat) = None \<or> is_dir fs' (child (root c) cat))
     \<and> same_kind fs (root c) fs'"

text \<open>The state in which a loop body ends, whether it raised or not.\<close>

definition after :: "(os_error \<times> run) + run \<Rightarrow> run" where
  "after x = (case x of Inl (e, st) \<Rightarrow> st | Inr st \<Rightarrow> st)"

text \<open>
  What the loop body does with an entry, read off the file system: it pushes a directory
  that passes the filters and is not named like a category, and it handles a regular
  file that passes the filters.
\<close>

definition pushes :: "config \<Rightarrow> node \<Rightarrow> path \<Rightarrow> bool" where
  "pushes c fs p \<longleftrightarrow>
     passes c (name_of p) (is_symlink fs p) \<and> is_dir fs p \<and> name_of p \<notin> set category_labels"

definition handles :: "config \<Rightarrow> node \<Rightarrow> path \<Rightarrow> bool" where
  "handles c fs p \<longleftrightarrow> passes c (name_of p) (is_symlink fs p) \<and> is_file fs p"

text \<open>
  \<open>ready c cur ks st\<close>: the state \<open>st\<close> is about to run the loop body for the entries \<open>ks\<close>
  of the directory \<open>cur\<close>, which are listed once each and are all there.
\<close>

definition ready :: "config \<Rightarrow> path \<Rightarrow> string list \<Rightarrow> run \<Rightarrow> bool" where
  "ready c cur ks st \<longleftrightarrow>
     walkable c cur \<and> distinct ks \<and> is_dir (disk st) (root c)
     \<and> (\<forall>k \<in> set ks. entry_at (disk st) (child cur k) \<noteq> None)"

text \<open>The files under the entry named \<open>k\<close> of a directory at \<open>p\<close> with entries \<open>es\<close>.\<close>

definition sub_files :: "config \<Rightarrow> path \<Rightarrow> (string \<times> entry) list \<Rightarrow> string \<Rightarrow> path list" where
  "sub_files c p es k =
     (case map_of es k of None \<Rightarrow> [] | Some (l, n) \<Rightarrow> files_under c (child p k) n)"

text \<open>
  \<open>walked c cur fl rest st st'\<close>: the loop started in \<open>st\<close> reaches \<open>st'\<close> with the stack
  \<open>rest\<close>; on the way it has changed nothing apart from \<open>cur\<close> and off the categories,
  and the files it has handled are among \<open>fl\<close>; they are all of \<open>fl\<close>, and no other file
  was inspected, when the category directories can be made.
\<close>

definition walked :: "config \<Rightarrow> path \<Rightarrow> path multiset \<Rightarrow> path list \<Rightarrow> run \<Rightarrow> run \<Rightarrow> bool" where
  "walked c cur fl rest st st' \<longleftrightarrow>
     while_stack c st = while_stack c st' \<and> stack st' = rest
     \<and> (\<forall>q. apart cur q \<and> off_categories c q \<longrightarrow> entry_at (disk st') q = entry_at (disk st) q)
     \<and> (\<exists>new. printed st' = printed st @ new
           \<and> mset (sources new) \<subseteq># fl
           \<and> (creatable c (disk st) \<longrightarrow>
                 creatable c (disk st') \<and> mset (sources new) = fl
                 \<and> processed st' = processed st + size fl))"

text \<open>The sources of the lines that report a move, done or intended.\<close>

definition moved :: "line list \<Rightarrow> path list" where
  "moved ls = concat (map source_of (filter is_move ls))"

text \<open>
  \<open>accounted j st\<close>: the counters of \<open>st\<close> agree with the lines printed so far, up to \<open>j\<close>
  files inspected whose failure has not been reported yet.
\<close>

definition accounted :: "nat \<Rightarrow> run \<Rightarrow> bool" where
  "accounted j st \<longleftrightarrow>
     sum_list (map snd (summary st)) = length (filter is_move (printed st))
     \<and> (\<forall>cat. count_of (summary st) cat
           = length (filter (\<lambda>s. resolve_category (get_extension_lower s) = cat)
               (moved (printed st))))
     \<and> length (errors st) = length (filter (\<lambda>ln. \<not> is_move ln) (printed st))
     \<and> length (sources (printed st)) \<le> processed st
     \<and> processed st
         \<le> length (sources (printed st)) + length (filter is_failed_listing (printed st)) + j"

section \<open>Example trees\<close>

text \<open>
  Two small trees for the worked examples.  In both the root is \<open>home\<close> and the category
  folder \<open>Images\<close> exists, is read-only and holds \<open>z.png\<close>.  The second tree has in
  addition a directory that cannot be listed.
\<close>

definition demo_config :: "bool \<Rightarrow> config" where
  "demo_config dry =
     \<lparr>root = [''home''], dry_run = dry, include_hidden = True, follow_symlinks = True\<rparr>"

definition demo_home :: "(string \<times> entry) list" where
  "demo_home =
     [(''a.jpg'', False, File), (''b.txt'', False, File), (''c.unknownext'', False, File),
      (''sub'', False, Dir True True [(''d.mp3'', False, File)]),
      (''Images'', False, Dir True False [(''z.png'', False, File)])]"

definition demo_tree :: node where
  "demo_tree = Dir True True [(''home'', False, Dir True True demo_home)]"

definition locked_home :: "(string \<times> entry) list" where
  "locked_home =
     [(''a.jpg'', False, File),
      (''Images'', False, Dir True False [(''z.png'', False, File)]),
      (''locked'', False, Dir False True [(''x.txt'', False, File)])]"

definition locked_tree :: node where
  "locked_tree = Dir True True [(''home'', False, Dir True True locked_home)]"

text \<open>
  A third tree, with files to move, a read-only category folder, a directory that cannot
  be listed, and a link that a walk without \<open>follow_symlinks\<close> skips.
\<close>

definition mixed_home :: "(string \<times> entry) list" where
  "mixed_home =
     [(''a.jpg'', False, File), (''b.txt'', False, File), (''shortcut.txt'', True, File),
      (''sub'', False, Dir True True [(''d.mp3'', False, File)]),
      (''locked'', False, Dir False True [(''x.txt'', False, File)]),
      (''Images'', False, Dir True False [(''z.png'', False, File)])]"

definition mixed_tree :: node where
  "mixed_tree = Dir True True [(''home'', False, Dir True True mixed_home)]"

definition mixed_config :: config where
  "mixed_config =
     \<lparr>root = [''home''], dry_run = False, include_hidden = True, follow_symlinks = False\<rparr>"

section \<open>Properties of the classifier\<close>

lemma lower_char_idem: "lower_char (lower_char c) = lower_char c"
  by (auto simp: lower_char_def split: option.splits dest!: map_of_SomeD)

lemma lower_char_dot: "lower_char c = CHR ''.'' \<longleftrightarrow> c = CHR ''.''"
  by (auto simp: lower_char_def split: option.splits dest!: map_of_SomeD)

lemma lower_idem: "lower (lower s) = lower s"
  by (simp add: lower_def lower_char_idem)

lemma length_lower: "length (lower s) = length s"
  by (simp add: lower_def)

lemma dot_in_lower: "CHR ''.'' \<in> set (lower s) \<longleftrightarrow> CHR ''.'' \<in> set s"
proof -
  have "CHR ''.'' \<in> lower_char ` set s \<longleftrightarrow> CHR ''.'' \<in> set s"
    using lower_char_dot by (metis (no_types) image_iff)
  then show ?thesis by (simp add: lower_def)
qed

lemma rfind_lower: "rfind (lower s) CHR ''.'' = rfind s CHR ''.''"
proof -
  have "takeWhile (\<lambda>x. x \<noteq> CHR ''.'') (rev (map lower_char s))
          = map lower_char (takeWhile (\<lambda>x. x \<noteq> CHR ''.'') (rev s))"
    by (simp add: rev_map takeWhile_map comp_def lower_char_dot)
  then show ?thesis
    using dot_in_lower [of s] by (simp add: rfind_def lower_def)
qed

lemma suffix_of_lower: "suffix_of (lower s) = lower (suffix_of s)"
  by (simp add: suffix_of_def rfind_lower length_lower split: option.splits)
     (simp add: lower_def drop_map)

lemma name_of_child: "name_of (child d n) = n"
  by (simp add: name_of_def child_def)

lemma endswith_last: "endswith s t \<Longrightarrow> t \<noteq> [] \<Longrightarrow> last s = last t"
  unfolding endswith_def
  by (metis append_take_drop_id last_appendR)

lemma endswith_dot: "endswith s t \<Longrightarrow> c \<in> set t \<Longrightarrow> c \<in> set s"
  unfolding endswith_def by (metis in_set_dropD)

lemma multi_exclusive: "endswith s ''.tar.gz'' \<Longrightarrow> \<not> endswith s ''tar.bz2''"
  by (auto dest!: endswith_last)

lemma get_extension_lower_order:
  "extension_lower_in [''tar.bz2'', ''.tar.gz''] p = get_extension_lower p"
  using multi_exclusive [of "lower (name_of p)"]
  by (auto simp: get_extension_lower_def extension_lower_in_def MULTI_EXTENSIONS_def)

lemma category_tar_gz: "resolve_category ''.tar.gz'' = ''Others''"
  by (simp add: resolve_category_def EXT_MAP_def)

lemma category_gz: "resolve_category ''.gz'' = ''Archives''"
  by (simp add: resolve_category_def EXT_MAP_def)

text \<open>
  C1.  A file name that ends in \<open>.tar.gz\<close>, in any mix of upper and lower case, gets the
  extension \<open>.tar.gz\<close> and so the category that the table gives for \<open>.tar.gz\<close>, which
  differs from the category \<open>Archives\<close> that the table gives for \<open>.gz\<close>.  The table has
  no row for \<open>.tar.gz\<close>, so that category is the default \<open>Others\<close>.
\<close>

theorem tar_gz_precedence:
  assumes "endswith (lower (name_of p)) ''.tar.gz''"
  shows "get_extension_lower p = ''.tar.gz''
       \<and> resolve_category (get_extension_lower p) = resolve_category ''.tar.gz''
       \<and> resolve_category (get_extension_lower p) \<noteq> resolve_category ''.gz''"
proof -
  from assms have "get_extension_lower p = ''.tar.gz''"
    by (simp add: get_extension_lower_def extension_lower_in_def MULTI_EXTENSIONS_def)
  then show ?thesis
    by (simp add: category_tar_gz category_gz)
qed

theorem tar_gz_precedence_witness:
  "endswith (lower (name_of [''home'', ''backup.tar.gz''])) ''.tar.gz''
   \<and> get_extension_lower [''home'', ''backup.tar.gz''] = ''.tar.gz''
   \<and> resolve_category (get_extension_lower [''home'', ''backup.tar.gz'']) = ''Others''"
proof -
  have h: "endswith (lower (name_of [''home'', ''backup.tar.gz''])) ''.tar.gz''"
    by (simp add: endswith_def lower_def lower_char_def name_of_def)
  from tar_gz_precedence [OF h] h show ?thesis
    by (simp add: category_tar_gz)
qed

lemma resolve_category_label: "resolve_category ext \<in> set category_labels"
proof (cases "map_of EXT_MAP ext")
  case None
  then show ?thesis by (simp add: resolve_category_def category_labels_def)
next
  case (Some c)
  then have "(ext, c) \<in> set EXT_MAP" by (rule map_of_SomeD)
  then have "c \<in> snd ` set EXT_MAP" by force
  with Some show ?thesis by (simp add: resolve_category_def category_labels_def)
qed

lemma no_dot_extension:
  assumes "CHR ''.'' \<notin> set (name_of p)"
  shows "get_extension_lower p = []"
proof -
  have nd: "CHR ''.'' \<notin> set (lower (name_of p))"
    using assms by (simp add: dot_in_lower)
  have "\<not> endswith (lower (name_of p)) ''.tar.gz''" "\<not> endswith (lower (name_of p)) ''tar.bz2''"
    using nd endswith_dot [of "lower (name_of p)" "''.tar.gz''" "CHR ''.''"]
      endswith_dot [of "lower (name_of p)" "''tar.bz2''" "CHR ''.''"] by auto
  then show ?thesis
    using assms
    by (simp add: get_extension_lower_def extension_lower_in_def MULTI_EXTENSIONS_def
        suffix_of_def rfind_def lower_def)
qed

lemma EXT_MAP_keys: "distinct (map fst EXT_MAP)"
  by code_simp

text \<open>
  C8.  Category lookup is total and is the lookup in the table: an extension that the
  table holds resolves to the category the table gives it (the first row for it, and no
  extension has two rows), an extension that the table does not hold resolves to
  \<open>Others\<close>, a file name without a dot has the empty extension and resolves to \<open>Others\<close>
  (so does \<open>README\<close>), and every result is one of the seven category labels.
\<close>

theorem resolve_category_total:
  "(map_of EXT_MAP ext = None \<longrightarrow> resolve_category ext = ''Others'')
   \<and> (\<forall>cat. map_of EXT_MAP ext = Some cat \<longrightarrow> resolve_category ext = cat)
   \<and> (\<forall>cat. (ext, cat) \<in> set EXT_MAP \<longrightarrow> resolve_category ext = cat)
   \<and> (CHR ''.'' \<notin> set (name_of p) \<longrightarrow> resolve_category (get_extension_lower p) = ''Others'')
   \<and> resolve_category (get_extension_lower [''README'']) = ''Others''
   \<and> resolve_category ext \<in> set category_labels"
proof -
  have "resolve_category [] = ''Others''"
    by (simp add: resolve_category_def EXT_MAP_def)
  moreover have "CHR ''.'' \<notin> set (name_of [''README''])"
    by (simp add: name_of_def)
  moreover have "map_of EXT_MAP ext = Some cat" if "(ext, cat) \<in> set EXT_MAP" for cat
    using that EXT_MAP_keys by (intro map_of_is_SomeI) simp_all
  ultimately show ?thesis
    using no_dot_extension [of p] no_dot_extension [of "[''README'']"] resolve_category_label [of ext]
    by (simp add: resolve_category_def)
qed

theorem resolve_category_total_witness:
  "map_of EXT_MAP ''.unknownext'' = None \<and> resolve_category ''.unknownext'' = ''Others''
   \<and> map_of EXT_MAP ''.jpg'' = Some ''Images'' \<and> (''.jpg'', ''Images'') \<in> set EXT_MAP
   \<and> resolve_category ''.jpg'' = ''Images''
   \<and> CHR ''.'' \<notin> set (name_of [''docs'', ''LICENSE''])
   \<and> resolve_category (get_extension_lower [''docs'', ''LICENSE'']) = ''Others''"
proof -
  have a: "map_of EXT_MAP ''.unknownext'' = None" by (simp add: EXT_MAP_def)
  have b: "CHR ''.'' \<notin> set (name_of [''docs'', ''LICENSE''])" by (simp add: name_of_def)
  have c: "map_of EXT_MAP ''.jpg'' = Some ''Images''" "(''.jpg'', ''Images'') \<in> set EXT_MAP"
    by (simp_all add: EXT_MAP_def)
  from a b resolve_category_total [of "''.unknownext''" "[''docs'', ''LICENSE'']"]
  have 1: "resolve_category ''.unknownext'' = ''Others''"
    "resolve_category (get_extension_lower [''docs'', ''LICENSE'']) = ''Others''"
    by simp_all
  from c resolve_category_total [of "''.jpg''" "[''docs'', ''LICENSE'']"]
  have 2: "resolve_category ''.jpg'' = ''Images''" by simp
  from a b c 1 2 show ?thesis by simp
qed

text \<open>
  C9.  Classification does not depend on case: a name and its lowercased form resolve to
  the same category, and \<open>A.JPG\<close> and \<open>a.jpg\<close> both resolve to \<open>Images\<close>.
\<close>

theorem classification_case_insensitive:
  "resolve_category (get_extension_lower (child d (lower n)))
     = resolve_category (get_extension_lower (child d n))
   \<and> resolve_category (get_extension_lower (child d ''A.JPG'')) = ''Images''
   \<and> resolve_category (get_extension_lower (child d ''a.jpg'')) = ''Images''"
proof -
  have "get_extension_lower (child d (lower n)) = get_extension_lower (child d n)"
    by (simp add: get_extension_lower_def extension_lower_in_def name_of_child lower_idem
        suffix_of_lower split: option.splits)
  moreover have "resolve_category (get_extension_lower (child d ''A.JPG'')) = ''Images''"
    by (simp add: get_extension_lower_def extension_lower_in_def name_of_child
        MULTI_EXTENSIONS_def endswith_def lower_def lower_char_def suffix_of_def rfind_def
        resolve_category_def EXT_MAP_def)
  moreover have "resolve_category (get_extension_lower (child d ''a.jpg'')) = ''Images''"
    by (simp add: get_extension_lower_def extension_lower_in_def name_of_child
        MULTI_EXTENSIONS_def endswith_def lower_def lower_char_def suffix_of_def rfind_def
        resolve_category_def EXT_MAP_def)
  ultimately show ?thesis by simp
qed

section \<open>Properties of the collision resolver\<close>

lemma first_free_hit:
  "\<not> exists fs (child d (candidate_name stem sfx i)) \<Longrightarrow>
     first_free fs d stem sfx i = child d (candidate_name stem sfx i)"
  by (subst first_free.simps) simp

lemma first_free_step:
  "exists fs (child d (candidate_name stem sfx i)) \<Longrightarrow>
     first_free fs d stem sfx i = first_free fs d stem sfx (Suc i)"
  by (subst first_free.simps) simp

lemma first_free_spec:
  "\<exists>k\<ge>i. first_free fs d stem sfx i = child d (candidate_name stem sfx k)
        \<and> \<not> exists fs (child d (candidate_name stem sfx k))
        \<and> (\<forall>j. i \<le> j \<and> j < k \<longrightarrow> exists fs (child d (candidate_name stem sfx j)))"
proof (induction fs d stem sfx i rule: first_free.induct)
  case (1 fs d stem sfx i)
  show ?case
  proof (cases "exists fs (child d (candidate_name stem sfx i))")
    case False
    then show ?thesis
      by (intro exI [of _ i]) (auto simp: first_free_hit)
  next
    case True
    with "1.IH" obtain k where k: "i + 1 \<le> k"
      "first_free fs d stem sfx (i + 1) = child d (candidate_name stem sfx k)"
      "\<not> exists fs (child d (candidate_name stem sfx k))"
      "\<forall>j. i + 1 \<le> j \<and> j < k \<longrightarrow> exists fs (child d (candidate_name stem sfx j))"
      by auto
    have "\<forall>j. i \<le> j \<and> j < k \<longrightarrow> exists fs (child d (candidate_name stem sfx j))"
    proof (intro allI impI)
      fix j assume "i \<le> j \<and> j < k"
      then have "j = i \<or> (i + 1 \<le> j \<and> j < k)" by auto
      with True k(4) show "exists fs (child d (candidate_name stem sfx j))" by auto
    qed
    with k True show ?thesis
      by (intro exI [of _ k]) (simp add: first_free_step)
  qed
qed

lemma rfind_last_dot:
  assumes "CHR ''.'' \<notin> set t"
  shows "rfind (s @ CHR ''.'' # t) CHR ''.'' = Some (length s)"
proof -
  have "takeWhile (\<lambda>x. x \<noteq> CHR ''.'') (rev t @ CHR ''.'' # rev s) = rev t"
    using assms by (auto simp: takeWhile_tail)
  then show ?thesis by (simp add: rfind_def)
qed

lemma stem_suffix_split:
  assumes "CHR ''.'' \<notin> set t" "s \<noteq> []" "t \<noteq> []"
  shows "stem_of (s @ ''.'' @ t) = s" "suffix_of (s @ ''.'' @ t) = ''.'' @ t"
  using assms by (simp_all add: stem_of_def suffix_of_def rfind_last_dot)

lemma str_nat_small: "n < 10 \<Longrightarrow> str_nat n = [digit n]"
  by (subst str_nat.simps) simp

lemma photo_example:
  "make_unique_target
     (Dir True True [(''photo.png'', False, File), (''photo_1.png'', False, File),
                     (''photo_2.png'', False, File)])
     [''photo.png''] = [''photo_3.png'']"
proof -
  have "rfind ''photo.png'' CHR ''.'' = Some 5" by (simp add: rfind_def)
  then show ?thesis
  by (simp add: make_unique_target_def exists_def entry_at_def first_free_hit first_free_step
      child_def candidate_name_def str_nat_small digit_def stem_of_def suffix_of_def name_of_def
      parent_def eval_nat_numeral)
qed

lemma parent_child: "parent (child d n) = d"
  by (simp add: parent_def child_def)

lemma make_unique_target_free: "\<not> exists fs target \<Longrightarrow> make_unique_target fs target = target"
  by (simp add: make_unique_target_def)

lemma make_unique_target_collision:
  assumes ex: "exists fs target"
  shows "\<exists>i\<ge>1.
           make_unique_target fs target
             = child (parent target)
                 (stem_of (name_of target) @ ''_'' @ str_nat i @ suffix_of (name_of target))
           \<and> \<not> exists fs (make_unique_target fs target)
           \<and> (\<forall>j. 1 \<le> j \<and> j < i \<longrightarrow>
                  exists fs (child (parent target)
                    (stem_of (name_of target) @ ''_'' @ str_nat j @ suffix_of (name_of target))))"
proof -
  let ?stem = "stem_of (name_of target)" and ?suffix = "suffix_of (name_of target)"
  from first_free_spec [of 1 fs "parent target" ?stem ?suffix]
  obtain k where k: "1 \<le> k"
    "first_free fs (parent target) ?stem ?suffix 1
       = child (parent target) (candidate_name ?stem ?suffix k)"
    "\<not> exists fs (child (parent target) (candidate_name ?stem ?suffix k))"
    "\<forall>j. 1 \<le> j \<and> j < k \<longrightarrow> exists fs (child (parent target) (candidate_name ?stem ?suffix j))"
    by blast
  from ex have m: "make_unique_target fs target = first_free fs (parent target) ?stem ?suffix 1"
    by (simp add: make_unique_target_def)
  show ?thesis
    using k unfolding m candidate_name_def by (intro exI [of _ k]) simp
qed

text \<open>
  C4.  The collision resolver returns the desired path unchanged when \<open>exists\<close> is false
  for it.  Otherwise it returns the candidate \<open>stem_i suffix\<close> with the least \<open>i\<close> from 1
  upwards for which \<open>exists\<close> is false: that candidate does not exist and every candidate
  with a smaller counter does.  The counter is a local of the call, so the numbering
  starts at 1 each time.  With \<open>photo.png\<close>, \<open>photo_1.png\<close> and \<open>photo_2.png\<close> present, a
  request for \<open>photo.png\<close> returns \<open>photo_3.png\<close>.
\<close>

theorem make_unique_target_first_free:
  "(\<not> exists fs target \<longrightarrow> make_unique_target fs target = target)
   \<and> (exists fs target \<longrightarrow>
        (\<exists>i\<ge>1.
           make_unique_target fs target
             = child (parent target)
                 (stem_of (name_of target) @ ''_'' @ str_nat i @ suffix_of (name_of target))
           \<and> \<not> exists fs (make_unique_target fs target)
           \<and> (\<forall>j. 1 \<le> j \<and> j < i \<longrightarrow>
                  exists fs (child (parent target)
                    (stem_of (name_of target) @ ''_'' @ str_nat j @ suffix_of (name_of target))))))
   \<and> make_unique_target
        (Dir True True [(''photo.png'', False, File), (''photo_1.png'', False, File),
                        (''photo_2.png'', False, File)])
        [''photo.png''] = [''photo_3.png'']"
  using make_unique_target_free [of fs target] make_unique_target_collision [of fs target]
    photo_example
  by blast

theorem make_unique_target_first_free_witness:
  "\<not> exists (Dir True True [(''photo.png'', False, File)]) [''song.mp3'']
   \<and> make_unique_target (Dir True True [(''photo.png'', False, File)]) [''song.mp3'']
       = [''song.mp3'']
   \<and> exists (Dir True True [(''photo.png'', False, File)]) [''photo.png'']
   \<and> make_unique_target (Dir True True [(''photo.png'', False, File)]) [''photo.png'']
       \<noteq> [''photo.png'']"
proof -
  let ?fs = "Dir True True [(''photo.png'', False, File)]"
  have a: "\<not> exists ?fs [''song.mp3'']" by (simp add: exists_def entry_at_def)
  have b: "exists ?fs [''photo.png'']" by (simp add: exists_def entry_at_def)
  from make_unique_target_first_free [of ?fs "[''song.mp3'']"] a
  have c: "make_unique_target ?fs [''song.mp3''] = [''song.mp3'']" by blast
  from make_unique_target_first_free [of ?fs "[''photo.png'']"] b
  have "\<not> exists ?fs (make_unique_target ?fs [''photo.png''])" by blast
  with b have "make_unique_target ?fs [''photo.png''] \<noteq> [''photo.png'']" by metis
  with a b c show ?thesis by blast
qed

text \<open>
  C10.  When the desired path exists and its name is \<open>s.t\<close> with \<open>t\<close> free of dots, the
  resolver puts the counter between \<open>s\<close> and \<open>.t\<close>: it splits the name at the last dot
  only, whatever dots \<open>s\<close> holds.  A colliding \<open>backup.tar.gz\<close> becomes \<open>backup.tar_1.gz\<close>,
  whose extension is \<open>.gz\<close> and no longer \<open>.tar.gz\<close>.
\<close>

theorem make_unique_target_splits_last_dot:
  "(exists fs target \<and> name_of target = s @ ''.'' @ t \<and> s \<noteq> [] \<and> t \<noteq> []
       \<and> CHR ''.'' \<notin> set t \<longrightarrow>
     (\<exists>i\<ge>1. make_unique_target fs target
               = child (parent target) (s @ ''_'' @ str_nat i @ ''.'' @ t)))
   \<and> make_unique_target (Dir True True [(''backup.tar.gz'', False, File)]) [''backup.tar.gz'']
       = [''backup.tar_1.gz'']
   \<and> get_extension_lower [''backup.tar_1.gz''] = ''.gz''"
proof (intro conjI impI)
  assume a: "exists fs target \<and> name_of target = s @ ''.'' @ t \<and> s \<noteq> [] \<and> t \<noteq> []
       \<and> CHR ''.'' \<notin> set t"
  then have "stem_of (name_of target) = s" "suffix_of (name_of target) = ''.'' @ t"
    using stem_suffix_split [of t s] by simp_all
  with a make_unique_target_collision [of fs target]
  show "\<exists>i\<ge>1. make_unique_target fs target
               = child (parent target) (s @ ''_'' @ str_nat i @ ''.'' @ t)"
    by auto
next
  have "rfind ''backup.tar.gz'' CHR ''.'' = Some 10" by (simp add: rfind_def)
  then show "make_unique_target (Dir True True [(''backup.tar.gz'', False, File)])
        [''backup.tar.gz''] = [''backup.tar_1.gz'']"
    by (simp add: make_unique_target_def exists_def entry_at_def first_free_hit first_free_step
      child_def candidate_name_def str_nat_small digit_def stem_of_def suffix_of_def name_of_def
      parent_def eval_nat_numeral)
next
  have "rfind ''backup.tar_1.gz'' CHR ''.'' = Some 12" by (simp add: rfind_def)
  then show "get_extension_lower [''backup.tar_1.gz''] = ''.gz''"
    by (simp add: get_extension_lower_def extension_lower_in_def MULTI_EXTENSIONS_def
        name_of_def endswith_def lower_def lower_char_def suffix_of_def)
qed

theorem make_unique_target_splits_last_dot_witness:
  "exists (Dir True True [(''backup.tar.gz'', False, File)]) [''backup.tar.gz'']
   \<and> name_of [''backup.tar.gz''] = ''backup.tar'' @ ''.'' @ ''gz''
   \<and> CHR ''.'' \<notin> set ''gz''
   \<and> (\<exists>i\<ge>1. make_unique_target (Dir True True [(''backup.tar.gz'', False, File)])
                 [''backup.tar.gz'']
               = child (parent [''backup.tar.gz'']) (''backup.tar'' @ ''_'' @ str_nat i @ ''.'' @ ''gz''))"
proof -
  let ?fs = "Dir True True [(''backup.tar.gz'', False, File)]"
  have a: "exists ?fs [''backup.tar.gz'']" by (simp add: exists_def entry_at_def)
  have b: "name_of [''backup.tar.gz''] = ''backup.tar'' @ ''.'' @ ''gz''" by (simp add: name_of_def)
  have c: "CHR ''.'' \<notin> set ''gz''" by simp
  have d: "''backup.tar'' \<noteq> []" "''gz'' \<noteq> []" by simp_all
  from make_unique_target_splits_last_dot [of ?fs "[''backup.tar.gz'']" "''backup.tar''" "''gz''"]
    a b c d
  have "\<exists>i\<ge>1. make_unique_target ?fs [''backup.tar.gz'']
               = child (parent [''backup.tar.gz'']) (''backup.tar'' @ ''_'' @ str_nat i @ ''.'' @ ''gz'')"
    by blast
  with a b c show ?thesis by blast
qed

section \<open>Properties of the walker\<close>

lemma while_stack_done: "stack st = [] \<Longrightarrow> while_stack c st = Some st"
  by (subst while_stack.simps) simp

lemma while_stack_step:
  "stack st \<noteq> [] \<Longrightarrow>
     while_stack c st = while_stack c (visit c (last (stack st)) (st\<lparr>stack := butlast (stack st)\<rparr>))"
  by (subst while_stack.simps) simp

text \<open>
  C6.  When the root does not exist or is not a directory, \<open>organize_iterative\<close> raises
  \<open>ValueError\<close> at once: the result is the error together with the file system it was
  given, unchanged, and no loop state exists.  The test is made only there: with a root
  that is a directory the call never ends in \<open>ValueError\<close>.
\<close>

theorem invalid_root_rejected:
  "(\<not> exists fs0 (root c) \<or> \<not> is_dir fs0 (root c) \<longrightarrow>
      organize_iterative c fs0 = Some (Inl (ValueError (root c), fs0)))
   \<and> (exists fs0 (root c) \<and> is_dir fs0 (root c) \<longrightarrow>
        (\<forall>e. organize_iterative c fs0 \<noteq> Some (Inl e)))"
  by (auto simp: organize_iterative_def)

theorem invalid_root_rejected_witness:
  "\<not> exists (Dir True True [(''home'', False, Dir True True []), (''notes.txt'', False, File)])
       [''missing'']
   \<and> organize_iterative
        \<lparr>root = [''missing''], dry_run = False, include_hidden = True, follow_symlinks = True\<rparr>
        (Dir True True [(''home'', False, Dir True True []), (''notes.txt'', False, File)])
      = Some (Inl (ValueError [''missing''],
           Dir True True [(''home'', False, Dir True True []), (''notes.txt'', False, File)]))
   \<and> \<not> is_dir (Dir True True [(''home'', False, Dir True True []), (''notes.txt'', False, File)])
       [''notes.txt'']
   \<and> organize_iterative
        \<lparr>root = [''notes.txt''], dry_run = False, include_hidden = True, follow_symlinks = True\<rparr>
        (Dir True True [(''home'', False, Dir True True []), (''notes.txt'', False, File)])
      = Some (Inl (ValueError [''notes.txt''],
           Dir True True [(''home'', False, Dir True True []), (''notes.txt'', False, File)]))
   \<and> exists (Dir True True [(''home'', False, Dir True True []), (''notes.txt'', False, File)])
       [''home'']
   \<and> is_dir (Dir True True [(''home'', False, Dir True True []), (''notes.txt'', False, File)])
       [''home'']
   \<and> organize_iterative
        \<lparr>root = [''home''], dry_run = False, include_hidden = True, follow_symlinks = True\<rparr>
        (Dir True True [(''home'', False, Dir True True []), (''notes.txt'', False, File)])
      \<noteq> Some (Inl (ValueError [''home''],
           Dir True True [(''home'', False, Dir True True []), (''notes.txt'', False, File)]))"
proof -
  let ?fs = "Dir True True [(''home'', False, Dir True True []), (''notes.txt'', False, File)]"
  let ?c = "\<lambda>r. \<lparr>root = r, dry_run = False, include_hidden = True, follow_symlinks = True\<rparr>"
  have a: "\<not> exists ?fs [''missing'']" by (simp add: exists_def entry_at_def)
  have b: "\<not> is_dir ?fs [''notes.txt'']" by (simp add: is_dir_def entry_at_def)
  have d: "exists ?fs [''home'']" "is_dir ?fs [''home'']"
    by (simp_all add: exists_def is_dir_def entry_at_def)
  from a invalid_root_rejected [of ?fs "?c [''missing'']"]
  have 1: "organize_iterative (?c [''missing'']) ?fs = Some (Inl (ValueError [''missing''], ?fs))"
    by simp
  from b invalid_root_rejected [of ?fs "?c [''notes.txt'']"]
  have 2: "organize_iterative (?c [''notes.txt'']) ?fs = Some (Inl (ValueError [''notes.txt''], ?fs))"
    by simp
  from d invalid_root_rejected [of ?fs "?c [''home'']"]
  have 3: "organize_iterative (?c [''home'']) ?fs \<noteq> Some (Inl (ValueError [''home''], ?fs))"
    by simp
  from a b d 1 2 3 show ?thesis by blast
qed

text \<open>
  C2.  A dry run on a root that holds the single file \<open>a.jpg\<close>: the category directory
  \<open>Images\<close>, absent before, is there afterwards, because \<open>mkdir\<close> runs before the test of
  \<open>dry_run\<close>.  The file stays where it was and the summary counts it.
\<close>

theorem dry_run_creates_category_directory:
  "\<not> exists (Dir True True [(''home'', False, Dir True True [(''a.jpg'', False, File)])])
       [''home'', ''Images'']
   \<and> map_option (map_sum id (\<lambda>st. (disk st, summary st, printed st)))
       (organize_iterative
          \<lparr>root = [''home''], dry_run = True, include_hidden = True, follow_symlinks = True\<rparr>
          (Dir True True [(''home'', False, Dir True True [(''a.jpg'', False, File)])]))
     = Some (Inr (Dir True True [(''home'', False,
                    Dir True True [(''a.jpg'', False, File),
                                   (''Images'', False, Dir True True [])])],
                  [(''Images'', 1)],
                  [WouldMove [''home'', ''a.jpg''] [''home'', ''Images'', ''a.jpg'']]))"
  by code_simp

theorem dry_run_creates_category_directory_witness:
  "case organize_iterative
          \<lparr>root = [''home''], dry_run = True, include_hidden = True, follow_symlinks = True\<rparr>
          (Dir True True [(''home'', False, Dir True True [(''a.jpg'', False, File)])]) of
     Some (Inr st) \<Rightarrow>
       is_dir (disk st) [''home'', ''Images''] \<and> is_file (disk st) [''home'', ''a.jpg'']
   | _ \<Rightarrow> False"
  using dry_run_creates_category_directory
  by (auto split: option.splits sum.splits simp: is_dir_def is_file_def entry_at_def)

section \<open>Updates of the tree and what they leave alone\<close>

lemma map_of_map_entry:
  "map_of (map (\<lambda>(k, l, n). if k = x then (k, l, h n) else (k, l, n)) es) y
     = (if y = x then map_option (\<lambda>(l, n). (l, h n)) (map_of es x) else map_of es y)"
  by (induction es) auto

lemma update_dir_Dir: "\<exists>es'. update_dir p f (Dir r w es) = Dir r w es'"
  by (cases p) simp_all

lemma update_dir_not_Dir: "\<forall>r w es. n \<noteq> Dir r w es \<Longrightarrow> update_dir p f n = n"
  by (cases n; cases p) auto

lemma walk_not_Dir: "\<forall>r w es. n \<noteq> Dir r w es \<Longrightarrow> q \<noteq> [] \<Longrightarrow> walk (l, n) q = None"
  by (cases n; cases q) auto

lemma walk_update_dir_above:
  "walk (l, update_dir (q @ d) f n) q
     = map_option (\<lambda>(l', n'). (l', update_dir d f n')) (walk (l, n) q)"
proof (induction q arbitrary: l n)
  case Nil
  then show ?case by simp
next
  case (Cons x xs)
  show ?case
  proof (cases n)
    case (Dir r w es)
    show ?thesis
    proof (cases "map_of es x")
      case None
      then show ?thesis by (simp add: Dir map_of_map_entry)
    next
      case (Some e)
      obtain l' n' where "e = (l', n')" by (cases e)
      with Some Cons.IH [of l' n'] show ?thesis by (simp add: Dir map_of_map_entry)
    qed
  qed simp_all
qed

lemma walk_update_dir_other:
  assumes f: "\<And>es k. k \<noteq> a \<Longrightarrow> map_of (f es) k = map_of es k"
  shows "apart (d @ [a]) q \<Longrightarrow> walk (l, update_dir d f n) q = walk (l, n) q"
proof (induction d arbitrary: l n q)
  case Nil
  then obtain x xs where q: "q = x # xs" and x: "x \<noteq> a"
    by (cases q) (auto simp: apart_def)
  show ?case
    by (cases n) (simp_all add: q f [OF x])
next
  case (Cons y ys)
  then obtain x xs where q: "q = x # xs"
    by (cases q) (auto simp: apart_def)
  show ?case
  proof (cases n)
    case (Dir r w es)
    show ?thesis
    proof (cases "x = y")
      case False
      then show ?thesis by (simp add: Dir q map_of_map_entry)
    next
      case True
      with Cons.prems q have ap: "apart (ys @ [a]) xs" by (simp add: apart_def)
      show ?thesis
      proof (cases "map_of es y")
        case None
        then show ?thesis by (simp add: Dir q True map_of_map_entry)
      next
        case (Some e)
        obtain l' n' where "e = (l', n')" by (cases e)
        with Some Cons.IH [OF ap, of l' n'] show ?thesis
          by (simp add: Dir q True map_of_map_entry)
      qed
    qed
  qed (simp_all add: q)
qed

lemma entry_at_put_other:
  "apart (child d a) q \<Longrightarrow> entry_at (put_entry (child d a) e fs) q = entry_at fs q"
  using walk_update_dir_other [of a "AList.update a e" d q False fs]
  by (simp add: entry_at_def put_entry_def parent_def name_of_def child_def update_conv')

lemma entry_at_remove_other:
  "apart (child d a) q \<Longrightarrow> entry_at (remove_entry (child d a) fs) q = entry_at fs q"
  using walk_update_dir_other [of a "AList.delete a" d q False fs]
  by (simp add: entry_at_def remove_entry_def parent_def name_of_def child_def delete_conv')

lemma entry_at_update_dir_above:
  "entry_at (update_dir (q @ d) f fs) q
     = map_option (\<lambda>(l', n'). (l', update_dir d f n')) (entry_at fs q)"
  by (simp add: entry_at_def walk_update_dir_above)

lemma same_kind_update_dir_above:
  "prefix q d \<Longrightarrow> same_kind fs q (update_dir d f fs)"
proof -
  assume "prefix q d"
  then obtain d' where d: "d = q @ d'" by (auto simp: prefix_def)
  show ?thesis
  proof (cases "entry_at fs q")
    case None
    then show ?thesis by (simp add: same_kind_def d entry_at_update_dir_above)
  next
    case (Some e)
    obtain l n where e: "e = (l, n)" by (cases e)
    show ?thesis
    proof (cases n)
      case (Dir r w es)
      obtain es' where "update_dir d' f (Dir r w es) = Dir r w es'"
        using update_dir_Dir by blast
      with Dir Some e show ?thesis
        by (simp add: same_kind_def d entry_at_update_dir_above)
    qed (simp_all add: same_kind_def d entry_at_update_dir_above Some e)
  qed
qed

lemma entry_at_put_parent:
  "entry_at fs d = Some (l, Dir r w es) \<Longrightarrow>
     entry_at (put_entry (child d a) e fs) d = Some (l, Dir r w (AList.update a e es))"
  using entry_at_update_dir_above [of d "[]" "AList.update a e" fs]
  by (simp add: put_entry_def parent_child name_of_child)

lemma same_kind_refl: "same_kind fs q fs"
  by (simp add: same_kind_def)

lemma same_kind_trans:
  assumes a: "same_kind fs q fs1" and b: "same_kind fs1 q fs2"
  shows "same_kind fs q fs2"
proof -
  from a consider (eq) "entry_at fs1 q = entry_at fs q"
    | (dir) l r w es es' where "entry_at fs q = Some (l, Dir r w es)"
        "entry_at fs1 q = Some (l, Dir r w es')"
    unfolding same_kind_def by blast
  then show ?thesis
  proof cases
    case eq
    with b show ?thesis unfolding same_kind_def by simp
  next
    case dir
    with b show ?thesis unfolding same_kind_def by auto
  qed
qed

lemma same_kind_exists: "same_kind fs q fs' \<Longrightarrow> entry_at fs q \<noteq> None \<Longrightarrow> entry_at fs' q \<noteq> None"
  by (auto simp: same_kind_def)

lemma edits_refl: "edits c t fs fs"
  by (simp add: edits_def same_kind_refl)

lemma edits_trans:
  assumes "edits c t fs fs1" "edits c t fs1 fs2"
  shows "edits c t fs fs2"
  unfolding edits_def
proof (intro conjI allI impI ballI)
  fix q assume "apart t q \<and> off_categories c q"
  with assms show "entry_at fs2 q = entry_at fs q" by (simp add: edits_def)
next
  fix cat assume cat: "cat \<in> set category_labels"
    and a: "apart t (child (root c) cat) \<and> entry_at fs (child (root c) cat) \<noteq> None"
  with assms(1) have 1: "same_kind fs (child (root c) cat) fs1" by (simp add: edits_def)
  with a have "entry_at fs1 (child (root c) cat) \<noteq> None" by (simp add: same_kind_exists)
  with assms(2) cat a have "same_kind fs1 (child (root c) cat) fs2" by (simp add: edits_def)
  with 1 show "same_kind fs (child (root c) cat) fs2" by (rule same_kind_trans)
next
  fix cat assume cat: "cat \<in> set category_labels"
    and a: "apart t (child (root c) cat) \<and> entry_at fs (child (root c) cat) = None"
  with assms(1) have "entry_at fs1 (child (root c) cat) = None \<or> is_dir fs1 (child (root c) cat)"
    by (simp add: edits_def)
  then show "entry_at fs2 (child (root c) cat) = None \<or> is_dir fs2 (child (root c) cat)"
  proof
    assume "entry_at fs1 (child (root c) cat) = None"
    with assms(2) cat a show ?thesis by (simp add: edits_def)
  next
    assume made: "is_dir fs1 (child (root c) cat)"
    then have "entry_at fs1 (child (root c) cat) \<noteq> None"
      by (auto simp: is_dir_def split: option.splits)
    with assms(2) cat a have "same_kind fs1 (child (root c) cat) fs2" by (simp add: edits_def)
    with made show ?thesis by (auto simp: same_kind_def is_dir_def)
  qed
next
  from assms show "same_kind fs (root c) fs2"
    by (auto simp: edits_def intro: same_kind_trans)
qed

lemma apart_sym: "apart p q \<longleftrightarrow> apart q p"
  by (auto simp: apart_def)

lemma apart_child_child: "a \<noteq> b \<Longrightarrow> apart (child d a) (child d b)"
  by (simp add: apart_def child_def)

lemma apart_extend: "apart t q \<Longrightarrow> apart (t @ x) q"
  by (auto simp: apart_def prefix_append dest: append_prefixD)

lemma apart_child: "apart t q \<Longrightarrow> apart (child t a) q"
  by (simp add: child_def apart_extend)

lemma walkable_root: "walkable c (root c)"
  by (simp add: walkable_def)

lemma walkable_child: "walkable c d \<Longrightarrow> a \<notin> set category_labels \<Longrightarrow> walkable c (child d a)"
proof -
  assume "walkable c d" and a: "a \<notin> set category_labels"
  then obtain rel where "d = root c @ rel" "\<forall>x \<in> set rel. x \<notin> set category_labels"
    unfolding walkable_def by blast
  with a have "child d a = root c @ (rel @ [a]) \<and> (\<forall>x \<in> set (rel @ [a]). x \<notin> set category_labels)"
    by (simp add: child_def)
  then show ?thesis unfolding walkable_def by blast
qed

lemma walkable_prefix: "walkable c d \<Longrightarrow> prefix (root c) d"
  by (auto simp: walkable_def)

lemma walkable_off:
  assumes "walkable c p" "p \<noteq> root c"
  shows "off_categories c p"
proof -
  from assms(1) obtain rel where rel: "p = root c @ rel" "\<forall>x \<in> set rel. x \<notin> set category_labels"
    unfolding walkable_def by blast
  with assms(2) obtain h t where "rel = h # t" by (cases rel) auto
  with rel have p: "p = root c @ h # t" and h: "h \<notin> set category_labels" by auto
  show ?thesis
    unfolding off_categories_def apart_def child_def p using h by auto
qed

lemma entry_apart_category:
  assumes "walkable c d" "cat \<in> set category_labels" "child d k \<noteq> child (root c) cat"
  shows "apart (child d k) (child (root c) cat)"
proof (cases "d = root c")
  case True
  with assms(3) show ?thesis by (auto simp: apart_def child_def)
next
  case False
  with assms(1) have "off_categories c d" by (rule walkable_off)
  with assms(2) have "apart d (child (root c) cat)"
    by (simp add: off_categories_def apart_sym)
  then show ?thesis by (rule apart_child)
qed

lemma off_categories_below:
  "off_categories c q \<Longrightarrow> cat \<in> set category_labels \<Longrightarrow> apart (child (child (root c) cat) u) q"
  by (simp add: off_categories_def apart_child)

lemma put_entry_child: "put_entry (child d a) e fs = update_dir d (AList.update a e) fs"
  by (simp add: put_entry_def parent_child name_of_child)

lemma remove_entry_child: "remove_entry (child d a) fs = update_dir d (AList.delete a) fs"
  by (simp add: remove_entry_def parent_child name_of_child)

lemma edits_mkdir:
  assumes cat: "cat \<in> set category_labels"
    and free: "entry_at fs (child (root c) cat) = None"
    and root: "entry_at fs (root c) = Some (l, Dir r w es)"
    and e: "e = (le, Dir re we ese)"
  shows "edits c t fs (put_entry (child (root c) cat) e fs)"
  unfolding edits_def
proof (intro conjI allI impI ballI)
  fix q assume "apart t q \<and> off_categories c q"
  with cat have "apart (child (root c) cat) q" by (simp add: off_categories_def)
  then show "entry_at (put_entry (child (root c) cat) e fs) q = entry_at fs q"
    by (rule entry_at_put_other)
next
  fix cat' assume "cat' \<in> set category_labels"
    and a: "apart t (child (root c) cat') \<and> entry_at fs (child (root c) cat') \<noteq> None"
  with free have "cat' \<noteq> cat" by auto
  then have "apart (child (root c) cat) (child (root c) cat')"
    by (simp add: apart_child_child)
  then have "entry_at (put_entry (child (root c) cat) e fs) (child (root c) cat')
      = entry_at fs (child (root c) cat')"
    by (rule entry_at_put_other)
  then show "same_kind fs (child (root c) cat') (put_entry (child (root c) cat) e fs)"
    by (simp add: same_kind_def)
next
  fix cat' assume "cat' \<in> set category_labels"
    and a: "apart t (child (root c) cat') \<and> entry_at fs (child (root c) cat') = None"
  show "entry_at (put_entry (child (root c) cat) e fs) (child (root c) cat') = None
      \<or> is_dir (put_entry (child (root c) cat) e fs) (child (root c) cat')"
  proof (cases "cat' = cat")
    case True
    have "entry_at (put_entry (child (root c) cat) e fs) (root c)
        = Some (l, Dir r w (AList.update cat e es))"
      using root by (rule entry_at_put_parent)
    then have "entry_at (put_entry (child (root c) cat) e fs) (child (root c) cat) = Some e"
      by (simp add: entry_at_child update_conv')
    with True e show ?thesis by (simp add: is_dir_def)
  next
    case False
    then have "apart (child (root c) cat) (child (root c) cat')"
      by (simp add: apart_child_child)
    then have "entry_at (put_entry (child (root c) cat) e fs) (child (root c) cat')
        = entry_at fs (child (root c) cat')"
      by (rule entry_at_put_other)
    with a show ?thesis by simp
  qed
next
  show "same_kind fs (root c) (put_entry (child (root c) cat) e fs)"
    unfolding put_entry_child by (rule same_kind_update_dir_above) simp
qed

lemma edits_remove:
  assumes "walkable c d"
  shows "edits c (child d k) fs (remove_entry (child d k) fs)"
  unfolding edits_def
proof (intro conjI allI impI ballI)
  fix q assume "apart (child d k) q \<and> off_categories c q"
  then show "entry_at (remove_entry (child d k) fs) q = entry_at fs q"
    by (simp add: entry_at_remove_other)
next
  fix cat assume "cat \<in> set category_labels"
    and "apart (child d k) (child (root c) cat) \<and> entry_at fs (child (root c) cat) \<noteq> None"
  then show "same_kind fs (child (root c) cat) (remove_entry (child d k) fs)"
    by (simp add: same_kind_def entry_at_remove_other)
next
  fix cat assume "cat \<in> set category_labels"
    and "apart (child d k) (child (root c) cat) \<and> entry_at fs (child (root c) cat) = None"
  then show "entry_at (remove_entry (child d k) fs) (child (root c) cat) = None
      \<or> is_dir (remove_entry (child d k) fs) (child (root c) cat)"
    by (simp add: entry_at_remove_other)
next
  show "same_kind fs (root c) (remove_entry (child d k) fs)"
    unfolding remove_entry_child
    using assms by (intro same_kind_update_dir_above walkable_prefix)
qed

lemma edits_put_in_category:
  assumes cat: "cat \<in> set category_labels"
    and dir: "entry_at fs (child (root c) cat) = Some (l, Dir r w es)"
  shows "edits c t fs (put_entry (child (child (root c) cat) u) e fs)"
  unfolding edits_def
proof (intro conjI allI impI ballI)
  fix q assume "apart t q \<and> off_categories c q"
  with cat have "apart (child (child (root c) cat) u) q" by (simp add: off_categories_below)
  then show "entry_at (put_entry (child (child (root c) cat) u) e fs) q = entry_at fs q"
    by (rule entry_at_put_other)
next
  fix cat' assume "cat' \<in> set category_labels"
  show "same_kind fs (child (root c) cat') (put_entry (child (child (root c) cat) u) e fs)"
  proof (cases "cat' = cat")
    case True
    with dir entry_at_put_parent [OF dir, of u e] show ?thesis
      by (simp add: same_kind_def)
  next
    case False
    then have "apart (child (root c) cat) (child (root c) cat')"
      by (simp add: apart_child_child)
    then have "apart (child (child (root c) cat) u) (child (root c) cat')"
      by (rule apart_child)
    then show ?thesis by (simp add: same_kind_def entry_at_put_other)
  qed
next
  fix cat' assume "cat' \<in> set category_labels"
    and a: "apart t (child (root c) cat') \<and> entry_at fs (child (root c) cat') = None"
  with dir have "cat' \<noteq> cat" by auto
  then have "apart (child (root c) cat) (child (root c) cat')"
    by (simp add: apart_child_child)
  then have "apart (child (child (root c) cat) u) (child (root c) cat')"
    by (rule apart_child)
  with a show "entry_at (put_entry (child (child (root c) cat) u) e fs) (child (root c) cat') = None
      \<or> is_dir (put_entry (child (child (root c) cat) u) e fs) (child (root c) cat')"
    by (simp add: entry_at_put_other)
next
  show "same_kind fs (root c) (put_entry (child (child (root c) cat) u) e fs)"
    unfolding put_entry_child by (rule same_kind_update_dir_above) (simp add: child_def)
qed

lemma mkdir_in_dir:
  assumes "entry_at fs d = Some (l, Dir r w es)"
  shows "mkdir fs (child d a) =
     (case map_of es a of
        None \<Rightarrow> if w then Inr (put_entry (child d a) (False, Dir True True []) fs)
                else Inl PermissionError
      | Some (l', n') \<Rightarrow>
         (case n' of Dir r' w' es' \<Rightarrow> Inr fs | _ \<Rightarrow> Inl FileExistsError))"
  by (subst mkdir.simps)
     (simp add: os_mkdir_def entry_at_child assms parent_child name_of_child is_dir_def
        put_entry_def split: option.splits node.splits)

lemma mkdir_category:
  assumes root: "entry_at fs (root c) = Some (l, Dir r w es)"
    and cat: "cat \<in> set category_labels"
    and ok: "mkdir fs (child (root c) cat) = Inr fs1"
  shows "edits c t fs fs1 \<and> (\<exists>l1 r1 w1 es1. entry_at fs1 (child (root c) cat) = Some (l1, Dir r1 w1 es1))"
proof (cases "map_of es cat")
  case None
  then have free: "entry_at fs (child (root c) cat) = None"
    by (simp add: entry_at_child root)
  from None ok have fs1: "fs1 = put_entry (child (root c) cat) (False, Dir True True []) fs"
    by (simp add: mkdir_in_dir [OF root] split: if_splits)
  have "entry_at fs1 (root c) = Some (l, Dir r w (AList.update cat (False, Dir True True []) es))"
    unfolding fs1 using root by (rule entry_at_put_parent)
  then have "entry_at fs1 (child (root c) cat) = Some (False, Dir True True [])"
    by (simp add: entry_at_child update_conv')
  with edits_mkdir [OF cat free root refl] show ?thesis unfolding fs1 by blast
next
  case (Some e)
  obtain l' n' where e: "e = (l', n')" by (cases e)
  with Some ok obtain r' w' es' where n': "n' = Dir r' w' es'" and fs1: "fs1 = fs"
    by (cases n') (simp_all add: mkdir_in_dir [OF root])
  with Some e have "entry_at fs (child (root c) cat) = Some (l', Dir r' w' es')"
    by (simp add: entry_at_child root)
  then show ?thesis by (simp add: fs1 edits_refl)
qed

section \<open>One entry of a listing\<close>

lemma walk_append: "walk e (p @ q) = Option.bind (walk e p) (\<lambda>e'. walk e' q)"
proof (induction p arbitrary: e)
  case Nil
  then show ?case by simp
next
  case (Cons x xs)
  obtain l n where e: "e = (l, n)" by (cases e)
  show ?case by (cases n) (simp_all add: e Cons.IH split: option.splits)
qed

lemma entry_below_leaf:
  assumes "entry_at fs p = Some (l, n)" "\<forall>r w es. n \<noteq> Dir r w es" "prefix p q" "p \<noteq> q"
  shows "entry_at fs q = None"
proof -
  from assms(3,4) obtain x where q: "q = p @ x" "x \<noteq> []" by (auto simp: prefix_def)
  with assms(1,2) show ?thesis
    by (simp add: entry_at_def walk_append walk_not_Dir)
qed

lemma is_file_entry: "is_file fs p \<longleftrightarrow> (\<exists>l. entry_at fs p = Some (l, File))"
  by (auto simp: is_file_def split: option.splits node.splits)

lemma is_dir_entry: "is_dir fs p \<longleftrightarrow> (\<exists>l r w es. entry_at fs p = Some (l, Dir r w es))"
  by (auto simp: is_dir_def split: option.splits node.splits)

lemma same_kind_class:
  assumes "same_kind fs q fs'"
  shows "is_dir fs' q = is_dir fs q" "is_file fs' q = is_file fs q"
    "is_symlink fs' q = is_symlink fs q" "(entry_at fs' q = None) = (entry_at fs q = None)"
  using assms
  by (auto simp: same_kind_def is_dir_def is_file_def is_symlink_def)

lemma move_cases:
  assumes src: "entry_at fs src = Some (ls, File)"
    and dst: "entry_at fs d = Some (l, Dir r w es)"
    and free: "\<not> exists fs (child d u)"
  shows "move fs src (child d u) = (fs, Some PermissionError)
       \<or> move fs src (child d u) = (put_entry (child d u) (ls, File) (remove_entry src fs), None)
       \<or> move fs src (child d u) = (put_entry (child d u) (ls, File) fs, Some PermissionError)"
proof -
  from free have nd: "\<not> is_dir fs (child d u)"
    by (auto simp: is_dir_def exists_def split: option.splits node.splits)
  from src free have ne: "src \<noteq> child d u"
    by (auto simp: exists_def)
  have np: "take (length src) (child d u) \<noteq> src"
  proof
    assume "take (length src) (child d u) = src"
    then have "prefix src (child d u)" by (metis take_is_prefix)
    with ne have p: "prefix src d" by (simp add: child_def)
    show False
    proof (cases "src = d")
      case True
      with src dst show False by simp
    next
      case False
      with src p have "entry_at fs d = None" by (intro entry_below_leaf [of fs src ls File]) simp_all
      with dst show False by simp
    qed
  qed
  show ?thesis
    using nd ne np src dst
    by (auto simp: move_def parent_child Let_def)
qed

lemma make_unique_target_in_dir:
  "\<exists>u. make_unique_target fs (child d k) = child d u \<and> \<not> exists fs (child d u)"
proof (cases "exists fs (child d k)")
  case False
  then show ?thesis by (auto simp: make_unique_target_free)
next
  case True
  from make_unique_target_collision [OF this] show ?thesis
    by (metis parent_child)
qed

lemma process_entry_skip:
  "\<not> pushes c (disk st) p \<Longrightarrow> \<not> handles c (disk st) p \<Longrightarrow> process_entry c p st = Inr st"
  by (auto simp: process_entry_def pushes_def handles_def passes_def)

lemma process_entry_push:
  "pushes c (disk st) p \<Longrightarrow> process_entry c p st = Inr (st\<lparr>stack := stack st @ [p]\<rparr>)"
  by (auto simp: process_entry_def pushes_def passes_def)

lemma handles_not_pushes: "handles c fs p \<Longrightarrow> \<not> pushes c fs p"
  by (auto simp: handles_def pushes_def is_file_def is_dir_def split: option.splits node.splits)

lemma process_entry_file_shape:
  assumes "handles c (disk st) p"
  shows "stack (after (process_entry c p st)) = stack st"
    and "processed (after (process_entry c p st)) = processed st + 1"
    and "isl (process_entry c p st) \<Longrightarrow>
           printed (after (process_entry c p st)) = printed st
           \<and> summary (after (process_entry c p st)) = summary st
           \<and> errors (after (process_entry c p st)) = errors st
           \<and> disk (after (process_entry c p st)) = disk st"
    and "\<not> isl (process_entry c p st) \<Longrightarrow>
           (\<exists>d. (printed (after (process_entry c p st)) = printed st @ [WouldMove p d]
                 \<or> printed (after (process_entry c p st)) = printed st @ [Moved p d])
              \<and> summary (after (process_entry c p st))
                    = increment (resolve_category (get_extension_lower p)) (summary st)
              \<and> errors (after (process_entry c p st)) = errors st)
           \<or> (\<exists>m. printed (after (process_entry c p st)) = printed st @ [ErrorMoving p m]
              \<and> summary (after (process_entry c p st)) = summary st
              \<and> errors (after (process_entry c p st)) = errors st @ [(p, m)])"
proof -
  from assms have f: "is_file (disk st) p" "\<not> is_dir (disk st) p"
    "\<not> (\<not> include_hidden c \<and> startswith (name_of p) ''.'')"
    "\<not> (is_symlink (disk st) p \<and> \<not> follow_symlinks c)"
    by (auto simp: handles_def passes_def is_file_def is_dir_def split: option.splits node.splits)
  show "stack (after (process_entry c p st)) = stack st"
    using f by (auto simp: process_entry_def after_def Let_def split: sum.splits prod.splits option.splits if_splits)
  show "processed (after (process_entry c p st)) = processed st + 1"
    using f by (auto simp: process_entry_def after_def Let_def split: sum.splits prod.splits option.splits if_splits)
  show "isl (process_entry c p st) \<Longrightarrow>
           printed (after (process_entry c p st)) = printed st
           \<and> summary (after (process_entry c p st)) = summary st
           \<and> errors (after (process_entry c p st)) = errors st
           \<and> disk (after (process_entry c p st)) = disk st"
    using f by (auto simp: process_entry_def after_def Let_def split: sum.splits prod.splits option.splits if_splits)
  show "\<not> isl (process_entry c p st) \<Longrightarrow>
           (\<exists>d. (printed (after (process_entry c p st)) = printed st @ [WouldMove p d]
                 \<or> printed (after (process_entry c p st)) = printed st @ [Moved p d])
              \<and> summary (after (process_entry c p st))
                    = increment (resolve_category (get_extension_lower p)) (summary st)
              \<and> errors (after (process_entry c p st)) = errors st)
           \<or> (\<exists>m. printed (after (process_entry c p st)) = printed st @ [ErrorMoving p m]
              \<and> summary (after (process_entry c p st)) = summary st
              \<and> errors (after (process_entry c p st)) = errors st @ [(p, m)])"
    using f by (auto simp: process_entry_def after_def Let_def split: sum.splits prod.splits option.splits if_splits)
qed

lemma mkdir_category_cases:
  assumes root: "entry_at fs (root c) = Some (l, Dir r w es)"
    and ok: "mkdir fs (child (root c) cat) = Inr fs1"
  shows "fs1 = fs
       \<or> (entry_at fs (child (root c) cat) = None
          \<and> fs1 = put_entry (child (root c) cat) (False, Dir True True []) fs)"
  using ok
  by (auto simp: mkdir_in_dir [OF root] entry_at_child root
      split: option.splits if_splits node.splits)

lemma process_entry_file_disk:
  assumes "handles c (disk st) p"
  shows "disk (after (process_entry c p st)) =
     (case mkdir (disk st) (child (root c) (resolve_category (get_extension_lower p))) of
        Inl e \<Rightarrow> disk st
      | Inr fs1 \<Rightarrow>
          if dry_run c then fs1
          else fst (move fs1 p
                 (make_unique_target fs1
                    (child (child (root c) (resolve_category (get_extension_lower p)))
                       (name_of p)))))"
proof -
  from assms have f: "is_file (disk st) p" "\<not> is_dir (disk st) p"
    "\<not> (\<not> include_hidden c \<and> startswith (name_of p) ''.'')"
    "\<not> (is_symlink (disk st) p \<and> \<not> follow_symlinks c)"
    by (auto simp: handles_def passes_def is_file_def is_dir_def split: option.splits node.splits)
  show ?thesis
    using f by (auto simp: process_entry_def after_def Let_def
        split: sum.splits prod.splits option.splits if_splits)
qed

lemma process_entry_file_edits:
  assumes root: "entry_at (disk st) (root c) = Some (lR, Dir rR wR esR)"
    and cur: "walkable c cur"
    and h: "handles c (disk st) (child cur k)"
  shows "edits c (child cur k) (disk st) (disk (after (process_entry c (child cur k) st)))"
proof -
  let ?p = "child cur k"
  let ?cat = "resolve_category (get_extension_lower ?p)"
  let ?tdir = "child (root c) ?cat"
  have cat: "?cat \<in> set category_labels" by (rule resolve_category_label)
  from h obtain ls where src: "entry_at (disk st) ?p = Some (ls, File)"
    by (auto simp: handles_def is_file_entry)
  show ?thesis
  proof (cases "mkdir (disk st) ?tdir")
    case (Inl e)
    then show ?thesis by (simp add: process_entry_file_disk [OF h] edits_refl)
  next
    case (Inr fs1)
    from mkdir_category [OF root cat Inr, of ?p]
    obtain l1 r1 w1 es1 where E1: "edits c ?p (disk st) fs1"
      and dir1: "entry_at fs1 ?tdir = Some (l1, Dir r1 w1 es1)"
      by blast
    show ?thesis
    proof (cases "dry_run c")
      case True
      with Inr E1 show ?thesis by (simp add: process_entry_file_disk [OF h])
    next
      case False
      obtain u where u: "make_unique_target fs1 (child ?tdir (name_of ?p)) = child ?tdir u"
        and free: "\<not> exists fs1 (child ?tdir u)"
        using make_unique_target_in_dir by blast
      have src1: "entry_at fs1 ?p = Some (ls, File)"
        using mkdir_category_cases [OF root Inr]
      proof
        assume "fs1 = disk st"
        with src show ?thesis by simp
      next
        assume a: "entry_at (disk st) ?tdir = None
          \<and> fs1 = put_entry ?tdir (False, Dir True True []) (disk st)"
        with src have "?p \<noteq> ?tdir" by auto
        with cur cat have "apart ?p ?tdir" by (intro entry_apart_category)
        then have "apart ?tdir ?p" by (simp add: apart_sym)
        with a src show ?thesis by (simp add: entry_at_put_other)
      qed
      from src1 dir1 have ne: "?p \<noteq> ?tdir" by auto
      with cur cat have ap: "apart ?p ?tdir" by (intro entry_apart_category)
      have d: "disk (after (process_entry c ?p st)) = fst (move fs1 ?p (child ?tdir u))"
        using Inr False u by (simp add: process_entry_file_disk [OF h])
      from move_cases [OF src1 dir1 free]
      have "edits c ?p fs1 (fst (move fs1 ?p (child ?tdir u)))"
      proof (elim disjE)
        assume "move fs1 ?p (child ?tdir u) = (fs1, Some PermissionError)"
        then show ?thesis by (simp add: edits_refl)
      next
        assume m: "move fs1 ?p (child ?tdir u)
          = (put_entry (child ?tdir u) (ls, File) (remove_entry ?p fs1), None)"
        have 1: "edits c ?p fs1 (remove_entry ?p fs1)" using cur by (rule edits_remove)
        have "entry_at (remove_entry ?p fs1) ?tdir = Some (l1, Dir r1 w1 es1)"
          using ap dir1 by (simp add: entry_at_remove_other)
        from edits_put_in_category [OF cat this]
        have "edits c ?p (remove_entry ?p fs1)
                (put_entry (child ?tdir u) (ls, File) (remove_entry ?p fs1))" .
        with 1 show ?thesis unfolding m fst_conv by (rule edits_trans)
      next
        assume m: "move fs1 ?p (child ?tdir u)
          = (put_entry (child ?tdir u) (ls, File) fs1, Some PermissionError)"
        from edits_put_in_category [OF cat dir1] show ?thesis unfolding m fst_conv .
      qed
      with E1 show ?thesis unfolding d by (rule edits_trans)
    qed
  qed
qed

lemma process_entry_disk_unchanged:
  "\<not> handles c (disk st) p \<Longrightarrow> disk (after (process_entry c p st)) = disk st"
  by (cases "pushes c (disk st) p") (simp_all add: process_entry_push process_entry_skip after_def)

lemma process_entry_edits:
  assumes "entry_at (disk st) (root c) = Some (lR, Dir rR wR esR)" "walkable c cur"
  shows "edits c (child cur k) (disk st) (disk (after (process_entry c (child cur k) st)))"
proof (cases "handles c (disk st) (child cur k)")
  case True
  with assms show ?thesis by (rule process_entry_file_edits)
next
  case False
  then show ?thesis by (simp add: process_entry_disk_unchanged edits_refl)
qed

lemma off_categories_child: "off_categories c q \<Longrightarrow> off_categories c (child q a)"
  unfolding off_categories_def using apart_child apart_sym by blast

lemma child_not_root: "walkable c cur \<Longrightarrow> child cur k \<noteq> root c"
  by (auto simp: walkable_def child_def)

lemma edits_outside:
  "edits c (child cur k) fs fs' \<Longrightarrow> apart cur q \<Longrightarrow> off_categories c q \<Longrightarrow>
     entry_at fs' q = entry_at fs q"
  by (simp add: edits_def apart_child)

lemma edits_sibling_entry:
  assumes "edits c (child cur k) fs fs'" "walkable c cur" "k' \<noteq> k" "k' \<notin> set category_labels"
  shows "entry_at fs' (child cur k') = entry_at fs (child cur k')"
proof -
  from assms(2,4) have "walkable c (child cur k')" by (rule walkable_child)
  then have "off_categories c (child cur k')"
    using child_not_root [OF assms(2)] by (rule walkable_off)
  moreover from assms(3) have "apart (child cur k) (child cur k')"
    by (simp add: apart_child_child)
  ultimately show ?thesis using assms(1) by (simp add: edits_def)
qed

lemma edits_sibling_kind:
  assumes e: "edits c (child cur k) fs fs'" and cur: "walkable c cur" and ne: "k' \<noteq> k"
    and ex: "entry_at fs (child cur k') \<noteq> None"
  shows "same_kind fs (child cur k') fs'"
proof (cases "k' \<in> set category_labels")
  case False
  with e cur ne show ?thesis by (simp add: same_kind_def edits_sibling_entry)
next
  case True
  from ne have ap: "apart (child cur k) (child cur k')" by (simp add: apart_child_child)
  show ?thesis
  proof (cases "cur = root c")
    case True
    with e \<open>k' \<in> set category_labels\<close> ap ex show ?thesis by (simp add: edits_def)
  next
    case False
    with cur have "off_categories c cur" by (rule walkable_off)
    then have "off_categories c (child cur k')" by (rule off_categories_child)
    with e ap show ?thesis by (simp add: edits_def same_kind_def)
  qed
qed

section \<open>The loop over a listing\<close>

lemma for_entries_raised:
  "isl (process_entry c p st) \<Longrightarrow> for_entries c (p # ps) st = process_entry c p st"
  by (cases "process_entry c p st") simp_all

lemma for_entries_next:
  "\<not> isl (process_entry c p st) \<Longrightarrow>
     for_entries c (p # ps) st = for_entries c ps (after (process_entry c p st))"
  by (cases "process_entry c p st") (simp_all add: after_def)

lemma raised_is_file: "isl (process_entry c p st) \<Longrightarrow> handles c (disk st) p"
  by (cases "handles c (disk st) p"; cases "pushes c (disk st) p")
     (simp_all add: process_entry_push process_entry_skip)

lemma ready_root:
  assumes "ready c cur ks st"
  obtains lR rR wR esR where "entry_at (disk st) (root c) = Some (lR, Dir rR wR esR)"
  using assms by (auto simp: ready_def is_dir_entry)

lemma step_edits:
  assumes "ready c cur (k # ks) st"
  shows "edits c (child cur k) (disk st) (disk (after (process_entry c (child cur k) st)))"
proof -
  from assms obtain lR rR wR esR where "entry_at (disk st) (root c) = Some (lR, Dir rR wR esR)"
    by (rule ready_root)
  moreover from assms have "walkable c cur" by (simp add: ready_def)
  ultimately show ?thesis by (rule process_entry_edits)
qed

lemma step_sibling:
  assumes r: "ready c cur (k # ks) st" and k': "k' \<in> set ks"
  shows "same_kind (disk st) (child cur k') (disk (after (process_entry c (child cur k) st)))"
proof -
  from r k' have "k' \<noteq> k" "entry_at (disk st) (child cur k') \<noteq> None" "walkable c cur"
    by (auto simp: ready_def)
  with step_edits [OF r] show ?thesis by (intro edits_sibling_kind)
qed

lemma step_ready:
  assumes r: "ready c cur (k # ks) st"
  shows "ready c cur ks (after (process_entry c (child cur k) st))"
proof -
  from step_edits [OF r]
  have "same_kind (disk st) (root c) (disk (after (process_entry c (child cur k) st)))"
    by (simp add: edits_def)
  with r have "is_dir (disk (after (process_entry c (child cur k) st))) (root c)"
    by (simp add: same_kind_class ready_def)
  moreover have "\<forall>k' \<in> set ks.
      entry_at (disk (after (process_entry c (child cur k) st))) (child cur k') \<noteq> None"
  proof
    fix k' assume k': "k' \<in> set ks"
    with r have "entry_at (disk st) (child cur k') \<noteq> None" by (simp add: ready_def)
    with step_sibling [OF r k']
    show "entry_at (disk (after (process_entry c (child cur k) st))) (child cur k') \<noteq> None"
      by (rule same_kind_exists)
  qed
  ultimately show ?thesis using r by (simp add: ready_def)
qed

lemma step_pushes:
  assumes r: "ready c cur (k # ks) st" and k': "k' \<in> set ks"
  shows "pushes c (disk (after (process_entry c (child cur k) st))) (child cur k')
           = pushes c (disk st) (child cur k')"
    and "handles c (disk (after (process_entry c (child cur k) st))) (child cur k')
           = handles c (disk st) (child cur k')"
  using step_sibling [OF r k'] by (simp_all add: pushes_def handles_def same_kind_class)

text \<open>The entries left alone by a whole \<open>for\<close> loop.\<close>

lemma for_entries_outside:
  "ready c cur ks st \<Longrightarrow> apart cur q \<Longrightarrow> off_categories c q \<Longrightarrow>
     entry_at (disk (after (for_entries c (map (child cur) ks) st))) q = entry_at (disk st) q"
proof (induction ks arbitrary: st)
  case Nil
  then show ?case by (simp add: after_def)
next
  case (Cons k ks)
  let ?r = "process_entry c (child cur k) st"
  have 1: "entry_at (disk (after ?r)) q = entry_at (disk st) q"
    using step_edits [OF Cons.prems(1)] Cons.prems(2,3) by (rule edits_outside)
  show ?case
  proof (cases "isl ?r")
    case True
    with 1 show ?thesis by (simp del: for_entries.simps add: for_entries_raised)
  next
    case False
    with Cons.IH [OF step_ready [OF Cons.prems(1)] Cons.prems(2,3)] 1
    show ?thesis by (simp del: for_entries.simps add: for_entries_next)
  qed
qed

lemma for_entries_root:
  "ready c cur ks st \<Longrightarrow>
     same_kind (disk st) (root c) (disk (after (for_entries c (map (child cur) ks) st)))"
proof (induction ks arbitrary: st)
  case Nil
  then show ?case by (simp add: after_def same_kind_refl)
next
  case (Cons k ks)
  let ?r = "process_entry c (child cur k) st"
  have 1: "same_kind (disk st) (root c) (disk (after ?r))"
    using step_edits [OF Cons.prems] by (simp add: edits_def)
  show ?case
  proof (cases "isl ?r")
    case True
    with 1 show ?thesis by (simp del: for_entries.simps add: for_entries_raised)
  next
    case False
    from 1 Cons.IH [OF step_ready [OF Cons.prems]]
    have "same_kind (disk st) (root c)
            (disk (after (for_entries c (map (child cur) ks) (after ?r))))"
      by (rule same_kind_trans)
    with False show ?thesis by (simp del: for_entries.simps add: for_entries_next)
  qed
qed

lemma for_entries_directory:
  "ready c cur ks st \<Longrightarrow> k' \<notin> set category_labels \<Longrightarrow>
   (k' \<in> set ks \<longrightarrow> is_dir (disk st) (child cur k')) \<Longrightarrow>
     entry_at (disk (after (for_entries c (map (child cur) ks) st))) (child cur k')
       = entry_at (disk st) (child cur k')"
proof (induction ks arbitrary: st)
  case Nil
  then show ?case by (simp add: after_def)
next
  case (Cons k ks)
  let ?r = "process_entry c (child cur k) st"
  from Cons.prems(1) have cur: "walkable c cur" by (simp add: ready_def)
  have 1: "entry_at (disk (after ?r)) (child cur k') = entry_at (disk st) (child cur k')"
  proof (cases "k' = k")
    case True
    with Cons.prems(3) have "is_dir (disk st) (child cur k)" by simp
    then have "\<not> handles c (disk st) (child cur k)"
      by (auto simp: handles_def is_file_entry is_dir_entry)
    then show ?thesis by (simp add: True process_entry_disk_unchanged)
  next
    case False
    with step_edits [OF Cons.prems(1)] cur Cons.prems(2) show ?thesis
      by (intro edits_sibling_entry)
  qed
  show ?case
  proof (cases "isl ?r")
    case True
    with 1 show ?thesis by (simp del: for_entries.simps add: for_entries_raised)
  next
    case False
    have "k' \<in> set ks \<longrightarrow> is_dir (disk (after ?r)) (child cur k')"
      using Cons.prems(3) 1 by (simp add: is_dir_def)
    from Cons.IH [OF step_ready [OF Cons.prems(1)] Cons.prems(2) this] 1 False
    show ?thesis by (simp del: for_entries.simps add: for_entries_next)
  qed
qed

lemma sources_append: "sources (xs @ ys) = sources xs @ sources ys"
  by (simp add: sources_def)

lemma step_stack:
  "stack (after (process_entry c p st)) = stack st @ (if pushes c (disk st) p then [p] else [])"
proof (cases "handles c (disk st) p")
  case True
  then show ?thesis by (simp add: process_entry_file_shape(1) handles_not_pushes)
next
  case False
  then show ?thesis
    by (cases "pushes c (disk st) p") (simp_all add: process_entry_push process_entry_skip after_def)
qed

lemma step_printed:
  "\<exists>new. printed (after (process_entry c p st)) = printed st @ new
      \<and> (\<forall>ln \<in> set new. \<not> is_failed_listing ln)
      \<and> (isl (process_entry c p st) \<longrightarrow> sources new = [])
      \<and> (\<not> isl (process_entry c p st) \<longrightarrow>
           sources new = (if handles c (disk st) p then [p] else []))"
proof (cases "handles c (disk st) p")
  case True
  show ?thesis
  proof (cases "isl (process_entry c p st)")
    case True
    with process_entry_file_shape(3) [OF \<open>handles c (disk st) p\<close>] show ?thesis
      by (simp add: sources_def)
  next
    case False
    from process_entry_file_shape(4) [OF True False] show ?thesis
      using False True by (auto simp: sources_def)
  qed
next
  case False
  then have "printed (after (process_entry c p st)) = printed st" "\<not> isl (process_entry c p st)"
    by (cases "pushes c (disk st) p"; simp add: process_entry_push process_entry_skip after_def)+
  with False show ?thesis by (simp add: sources_def)
qed

lemma for_entries_stack:
  "ready c cur ks st \<Longrightarrow>
     \<exists>ps. stack (after (for_entries c (map (child cur) ks) st)) = stack st @ map (child cur) ps
        \<and> set ps \<subseteq> {k \<in> set ks. pushes c (disk st) (child cur k)}
        \<and> distinct ps
        \<and> (\<not> isl (for_entries c (map (child cur) ks) st) \<longrightarrow>
             ps = filter (\<lambda>k. pushes c (disk st) (child cur k)) ks)"
proof (induction ks arbitrary: st)
  case Nil
  then show ?case by (simp add: after_def)
next
  case (Cons k ks)
  let ?r = "process_entry c (child cur k) st"
  let ?here = "if pushes c (disk st) (child cur k) then [k] else []"
  have 1: "stack (after ?r) = stack st @ map (child cur) ?here"
    by (simp add: step_stack)
  from Cons.prems have d: "k \<notin> set ks" by (simp add: ready_def)
  show ?case
  proof (cases "isl ?r")
    case True
    then have "handles c (disk st) (child cur k)" by (rule raised_is_file)
    then have "stack (after ?r) = stack st" by (simp add: process_entry_file_shape(1))
    with True show ?thesis
      by (intro exI [of _ "[]"]) (simp del: for_entries.simps add: for_entries_raised)
  next
    case False
    from Cons.IH [OF step_ready [OF Cons.prems]]
    obtain ps where ps:
      "stack (after (for_entries c (map (child cur) ks) (after ?r)))
         = stack (after ?r) @ map (child cur) ps"
      "set ps \<subseteq> {k' \<in> set ks. pushes c (disk (after ?r)) (child cur k')}"
      "distinct ps"
      "\<not> isl (for_entries c (map (child cur) ks) (after ?r)) \<longrightarrow>
         ps = filter (\<lambda>k'. pushes c (disk (after ?r)) (child cur k')) ks"
      by blast
    have same: "\<And>k'. k' \<in> set ks \<Longrightarrow>
        pushes c (disk (after ?r)) (child cur k') = pushes c (disk st) (child cur k')"
      using step_pushes(1) [OF Cons.prems] .
    have f: "filter (\<lambda>k'. pushes c (disk (after ?r)) (child cur k')) ks
           = filter (\<lambda>k'. pushes c (disk st) (child cur k')) ks"
      using same by (intro filter_cong) simp_all
    have sub: "set ps \<subseteq> {k' \<in> set ks. pushes c (disk st) (child cur k')}"
      using ps(2) same by auto
    with d have "k \<notin> set ps" by auto
    with ps(3) have dist: "distinct (?here @ ps)" by simp
    have eq: "for_entries c (map (child cur) (k # ks)) st
           = for_entries c (map (child cur) ks) (after ?r)"
      using False by (simp del: for_entries.simps add: for_entries_next)
    show ?thesis
      unfolding eq
      using ps(1) 1 sub dist ps(4) f
      by (intro exI [of _ "?here @ ps"]) auto
  qed
qed

lemma for_entries_printed:
  "ready c cur ks st \<Longrightarrow>
     \<exists>new. printed (after (for_entries c (map (child cur) ks) st)) = printed st @ new
        \<and> (\<forall>ln \<in> set new. \<not> is_failed_listing ln)
        \<and> mset (sources new)
              \<subseteq># mset (map (child cur) (filter (\<lambda>k. handles c (disk st) (child cur k)) ks))
        \<and> (\<not> isl (for_entries c (map (child cur) ks) st) \<longrightarrow>
             sources new = map (child cur) (filter (\<lambda>k. handles c (disk st) (child cur k)) ks))"
proof (induction ks arbitrary: st)
  case Nil
  then show ?case by (simp add: after_def sources_def)
next
  case (Cons k ks)
  let ?r = "process_entry c (child cur k) st"
  let ?here = "if handles c (disk st) (child cur k) then [child cur k] else []"
  let ?later = "map (child cur) (filter (\<lambda>k'. handles c (disk st) (child cur k')) ks)"
  have all: "map (child cur) (filter (\<lambda>k'. handles c (disk st) (child cur k')) (k # ks))
      = ?here @ ?later"
    by simp
  from step_printed [of c "child cur k" st]
  obtain new1 where new1: "printed (after ?r) = printed st @ new1"
    "\<forall>ln \<in> set new1. \<not> is_failed_listing ln"
    "isl ?r \<longrightarrow> sources new1 = []"
    "\<not> isl ?r \<longrightarrow> sources new1 = ?here"
    by blast
  show ?case
  proof (cases "isl ?r")
    case True
    with new1 show ?thesis
      by (intro exI [of _ new1]) (simp del: for_entries.simps add: for_entries_raised)
  next
    case False
    from Cons.IH [OF step_ready [OF Cons.prems]]
    obtain new where new:
      "printed (after (for_entries c (map (child cur) ks) (after ?r))) = printed (after ?r) @ new"
      "\<forall>ln \<in> set new. \<not> is_failed_listing ln"
      "mset (sources new)
         \<subseteq># mset (map (child cur) (filter (\<lambda>k'. handles c (disk (after ?r)) (child cur k')) ks))"
      "\<not> isl (for_entries c (map (child cur) ks) (after ?r)) \<longrightarrow>
         sources new = map (child cur) (filter (\<lambda>k'. handles c (disk (after ?r)) (child cur k')) ks)"
      by blast
    have f: "filter (\<lambda>k'. handles c (disk (after ?r)) (child cur k')) ks
           = filter (\<lambda>k'. handles c (disk st) (child cur k')) ks"
      using step_pushes(2) [OF Cons.prems] by (intro filter_cong) simp_all
    have eq: "for_entries c (map (child cur) (k # ks)) st
           = for_entries c (map (child cur) ks) (after ?r)"
      using False by (simp del: for_entries.simps add: for_entries_next)
    from new1(4) False have s1: "sources new1 = ?here" by simp
    from new(3) have "mset (sources new) \<subseteq># mset ?later" by (simp only: f)
    then have "mset ?here + mset (sources new) \<subseteq># mset ?here + mset ?later"
      by (rule subset_mset.add_left_mono)
    then have sub: "mset (sources (new1 @ new)) \<subseteq># mset (?here @ ?later)"
      by (simp only: sources_append s1 mset_append)
    have full: "sources (new1 @ new) = ?here @ ?later"
      if "\<not> isl (for_entries c (map (child cur) ks) (after ?r))"
      using that new(4) s1 by (simp only: sources_append f) simp
    have "printed (after (for_entries c (map (child cur) ks) (after ?r))) = printed st @ (new1 @ new)"
      using new(1) new1(1) by simp
    moreover have "\<forall>ln \<in> set (new1 @ new). \<not> is_failed_listing ln"
      using new(2) new1(2) by auto
    ultimately show ?thesis
      unfolding eq all
      using sub full by (intro exI [of _ "new1 @ new"]) blast
  qed
qed

text \<open>While the category directories can be made, no entry raises.\<close>

lemma creatable_mkdir:
  assumes cr: "creatable c fs" and root: "entry_at fs (root c) = Some (l, Dir r w es)"
    and cat: "cat \<in> set category_labels"
  shows "\<exists>fs1. mkdir fs (child (root c) cat) = Inr fs1"
proof (cases "map_of es cat")
  case None
  then have "entry_at fs (child (root c) cat) = None"
    by (simp add: entry_at_child root)
  with cr cat have "writable_dir fs (root c)"
    by (auto simp: creatable_def is_dir_entry)
  with root have w by (simp add: writable_dir_def)
  with None show ?thesis by (simp add: mkdir_in_dir [OF root])
next
  case (Some e)
  obtain l' n' where e: "e = (l', n')" by (cases e)
  with Some have at: "entry_at fs (child (root c) cat) = Some (l', n')"
    by (simp add: entry_at_child root)
  with cr cat have "is_dir fs (child (root c) cat)" by (auto simp: creatable_def)
  with at obtain r' w' es' where "n' = Dir r' w' es'" by (auto simp: is_dir_entry)
  with Some e show ?thesis by (simp add: mkdir_in_dir [OF root])
qed

lemma process_entry_made:
  assumes "handles c (disk st) p"
    and "mkdir (disk st) (child (root c) (resolve_category (get_extension_lower p))) = Inr fs1"
  shows "\<not> isl (process_entry c p st)"
proof -
  from assms(1) have f: "is_file (disk st) p" "\<not> is_dir (disk st) p"
    "\<not> (\<not> include_hidden c \<and> startswith (name_of p) ''.'')"
    "\<not> (is_symlink (disk st) p \<and> \<not> follow_symlinks c)"
    by (auto simp: handles_def passes_def is_file_def is_dir_def split: option.splits node.splits)
  show ?thesis
    using f assms(2)
    by (auto simp: process_entry_def Let_def split: sum.splits prod.splits option.splits if_splits)
qed

lemma edits_creatable:
  assumes e: "edits c t fs fs'" and cr: "creatable c fs"
    and ap: "\<forall>cat \<in> set category_labels. apart t (child (root c) cat)"
  shows "creatable c fs'"
  unfolding creatable_def
proof
  fix cat assume cat: "cat \<in> set category_labels"
  from e have rt: "same_kind fs (root c) fs'" by (simp add: edits_def)
  from cr cat have "is_dir fs (child (root c) cat)
      \<or> (entry_at fs (child (root c) cat) = None \<and> writable_dir fs (root c))"
    by (simp add: creatable_def)
  then show "is_dir fs' (child (root c) cat)
      \<or> (entry_at fs' (child (root c) cat) = None \<and> writable_dir fs' (root c))"
  proof
    assume dir: "is_dir fs (child (root c) cat)"
    then have "entry_at fs (child (root c) cat) \<noteq> None" by (auto simp: is_dir_entry)
    with e cat ap have "same_kind fs (child (root c) cat) fs'" by (simp add: edits_def)
    with dir show ?thesis by (simp add: same_kind_class)
  next
    assume free: "entry_at fs (child (root c) cat) = None \<and> writable_dir fs (root c)"
    with rt have "writable_dir fs' (root c)"
      by (auto simp: same_kind_def writable_dir_def)
    moreover from e cat ap free
    have "entry_at fs' (child (root c) cat) = None \<or> is_dir fs' (child (root c) cat)"
      by (simp add: edits_def)
    ultimately show ?thesis by blast
  qed
qed

lemma step_creatable:
  assumes r: "ready c cur (k # ks) st" and cr: "creatable c (disk st)"
  shows "\<not> isl (process_entry c (child cur k) st)"
    and "creatable c (disk (after (process_entry c (child cur k) st)))"
    and "processed (after (process_entry c (child cur k) st))
           = processed st + (if handles c (disk st) (child cur k) then 1 else 0)"
proof -
  let ?p = "child cur k"
  from r obtain lR rR wR esR where root: "entry_at (disk st) (root c) = Some (lR, Dir rR wR esR)"
    by (rule ready_root)
  from r have cur: "walkable c cur" by (simp add: ready_def)
  show "\<not> isl (process_entry c ?p st)"
  proof
    assume i: "isl (process_entry c ?p st)"
    then have h: "handles c (disk st) ?p" by (rule raised_is_file)
    from creatable_mkdir [OF cr root resolve_category_label]
    obtain fs1
      where "mkdir (disk st) (child (root c) (resolve_category (get_extension_lower ?p))) = Inr fs1"
      by blast
    with h have "\<not> isl (process_entry c ?p st)" by (rule process_entry_made)
    with i show False by simp
  qed
  show "creatable c (disk (after (process_entry c ?p st)))"
  proof (cases "handles c (disk st) ?p")
    case False
    with cr show ?thesis by (simp add: process_entry_disk_unchanged)
  next
    case True
    then obtain ls where src: "entry_at (disk st) ?p = Some (ls, File)"
      by (auto simp: handles_def is_file_entry)
    have "\<forall>cat \<in> set category_labels. apart ?p (child (root c) cat)"
    proof
      fix cat assume cat: "cat \<in> set category_labels"
      with cr have there: "is_dir (disk st) (child (root c) cat)
          \<or> entry_at (disk st) (child (root c) cat) = None"
        by (auto simp: creatable_def)
      have "?p \<noteq> child (root c) cat"
      proof
        assume "?p = child (root c) cat"
        with src have "entry_at (disk st) (child (root c) cat) = Some (ls, File)" by simp
        with there show False by (simp add: is_dir_entry)
      qed
      with cur cat show "apart ?p (child (root c) cat)" by (rule entry_apart_category)
    qed
    from edits_creatable [OF step_edits [OF r] cr this] show ?thesis .
  qed
  show "processed (after (process_entry c ?p st))
           = processed st + (if handles c (disk st) ?p then 1 else 0)"
  proof (cases "handles c (disk st) ?p")
    case True
    then show ?thesis by (simp add: process_entry_file_shape(2))
  next
    case False
    then have "processed (after (process_entry c ?p st)) = processed st"
      by (cases "pushes c (disk st) ?p"; simp add: process_entry_push process_entry_skip after_def)
    with False show ?thesis by simp
  qed
qed

lemma for_entries_creatable:
  "ready c cur ks st \<Longrightarrow> creatable c (disk st) \<Longrightarrow>
     \<not> isl (for_entries c (map (child cur) ks) st)
     \<and> creatable c (disk (after (for_entries c (map (child cur) ks) st)))
     \<and> processed (after (for_entries c (map (child cur) ks) st))
         = processed st + length (filter (\<lambda>k. handles c (disk st) (child cur k)) ks)"
proof (induction ks arbitrary: st)
  case Nil
  then show ?case by (simp add: after_def)
next
  case (Cons k ks)
  let ?r = "process_entry c (child cur k) st"
  note s = step_creatable [OF Cons.prems]
  note IH = Cons.IH [OF step_ready [OF Cons.prems(1)] s(2)]
  have f: "filter (\<lambda>k'. handles c (disk (after ?r)) (child cur k')) ks
         = filter (\<lambda>k'. handles c (disk st) (child cur k')) ks"
    using step_pushes(2) [OF Cons.prems(1)] by (intro filter_cong) simp_all
  have eq: "for_entries c (map (child cur) (k # ks)) st
         = for_entries c (map (child cur) ks) (after ?r)"
    using s(1) by (simp del: for_entries.simps add: for_entries_next)
  show ?case
    unfolding eq using IH s(3) by (simp add: f)
qed

section \<open>The walk of a subtree\<close>

lemma size_entry: "(k, l, n) \<in> set es \<Longrightarrow> size n < size (Dir r w es)"
  by (induction es) auto

lemma wf_entry: "wf_node (Dir r w es) \<Longrightarrow> (k, l, n) \<in> set es \<Longrightarrow> wf_node n"
  by auto

lemma entry_at_prefix_dir:
  assumes "entry_at fs q = Some (l, Dir r w es)" "prefix p q"
  shows "is_dir fs p"
proof -
  from assms(2) obtain x where q: "q = p @ x" by (auto simp: prefix_def)
  with assms(1) obtain e where e: "entry_at fs p = Some e" "walk e x = Some (l, Dir r w es)"
    by (auto simp: entry_at_def walk_append split: Option.bind_splits)
  obtain l' n' where "e = (l', n')" by (cases e)
  with e show ?thesis
    by (cases n'; cases x) (auto simp: is_dir_def)
qed

lemma iterdir_dir:
  "entry_at fs p = Some (l, Dir r w es) \<Longrightarrow>
     iterdir fs p = (if r then Inr (map (child p) (map fst es)) else Inl PermissionError)"
  by (auto simp: iterdir_def)

lemma handle_listing_simps:
  "disk (handle_listing cur e st) = disk st"
  "stack (handle_listing cur e st) = stack st"
  "\<exists>ln. printed (handle_listing cur e st) = printed st @ [ln] \<and> is_failed_listing ln"
  "processed (handle_listing cur e st) = processed st"
  by (simp_all add: handle_listing_def)

lemma failed_listing_source: "is_failed_listing ln \<Longrightarrow> sources [ln] = []"
  by (cases ln) (simp_all add: sources_def)

lemma sum_list_among:
  fixes f :: "'a \<Rightarrow> 'b multiset"
  shows "distinct ps \<Longrightarrow> set ps \<subseteq> set qs \<Longrightarrow> sum_list (map f ps) \<subseteq># sum_list (map f qs)"
proof (induction ps arbitrary: qs)
  case Nil
  then show ?case by simp
next
  case (Cons a ps)
  from Cons.prems(2) have "a \<in> set qs" by simp
  then obtain xs ys where qs: "qs = xs @ a # ys" by (auto dest: split_list)
  from Cons.prems have "set ps \<subseteq> set (xs @ ys)" by (auto simp: qs)
  with Cons.prems(1) have "sum_list (map f ps) \<subseteq># sum_list (map f (xs @ ys))"
    by (intro Cons.IH) simp_all
  then have "f a + sum_list (map f ps) \<subseteq># f a + sum_list (map f (xs @ ys))"
    by (rule subset_mset.add_left_mono)
  then show ?case by (simp add: qs ac_simps)
qed

lemma visit_unreadable:
  "iterdir (disk st) cur = Inl e \<Longrightarrow> visit c cur st = handle_listing cur e st"
  by (simp add: visit_def)

lemma visit_completed:
  "iterdir (disk st) cur = Inr ps \<Longrightarrow> \<not> isl (for_entries c ps st) \<Longrightarrow>
     visit c cur st = after (for_entries c ps st)"
  by (cases "for_entries c ps st") (simp_all add: visit_def after_def)

lemma visit_raised:
  "iterdir (disk st) cur = Inr ps \<Longrightarrow> isl (for_entries c ps st) \<Longrightarrow>
     \<exists>e. visit c cur st = handle_listing cur e (after (for_entries c ps st))"
  by (cases "for_entries c ps st") (auto simp: visit_def after_def)

lemma sum_list_singletons:
  "sum_list (map (\<lambda>x. if P x then {#f x#} else {#}) xs) = mset (map f (filter P xs))"
  by (induction xs) simp_all

lemma sum_list_if_filter:
  "sum_list (map (\<lambda>x. if P x then (F x :: 'b multiset) else {#}) xs) = sum_list (map F (filter P xs))"
  by (induction xs) simp_all

lemma files_under_split:
  assumes d: "distinct (map fst es)"
    and H: "\<And>k l n. (k, l, n) \<in> set es \<Longrightarrow> H k \<longleftrightarrow> passes c k l \<and> n = File"
    and P: "\<And>k l n. (k, l, n) \<in> set es \<Longrightarrow>
              Pu k \<longleftrightarrow> passes c k l \<and> (\<exists>r w es'. n = Dir r w es') \<and> k \<notin> set category_labels"
  shows "mset (files_under c p (Dir True w es))
       = mset (map (child p) (filter H (map fst es)))
         + sum_list (map (\<lambda>k. mset (sub_files c p es k)) (filter Pu (map fst es)))"
proof -
  let ?g = "\<lambda>e. if \<not> passes c (fst e) (fst (snd e)) then []
        else if snd (snd e) = File then [child p (fst e)]
        else if fst e \<in> set category_labels then []
        else files_under c (child p (fst e)) (snd (snd e))"
  let ?A = "\<lambda>k. if H k then {#child p k#} else {#}"
  let ?B = "\<lambda>k. if Pu k then mset (sub_files c p es k) else {#}"
  have each: "mset (?g e) = ?A (fst e) + ?B (fst e)" if e: "e \<in> set es" for e
  proof -
    obtain k l n where kln: "e = (k, l, n)" by (cases e)
    with e d have m: "map_of es k = Some (l, n)" by simp
    from e kln H [of k l n] P [of k l n] m show ?thesis
      by (cases n) (auto simp: sub_files_def)
  qed
  have "mset (files_under c p (Dir True w es)) = sum_list (map (\<lambda>e. mset (?g e)) es)"
    by (simp add: mset_concat comp_def)
  also have "\<dots> = sum_list (map (\<lambda>e. ?A (fst e) + ?B (fst e)) es)"
    using each by (intro arg_cong [where f = sum_list] map_cong) simp_all
  also have "\<dots> = sum_list (map ?A (map fst es)) + sum_list (map ?B (map fst es))"
    by (simp add: sum_list_addf comp_def)
  finally show ?thesis
    by (simp only: sum_list_singletons sum_list_if_filter)
qed

lemma walkedI:
  assumes "while_stack c st = while_stack c st'" "stack st' = rest"
    and "\<forall>q. apart cur q \<and> off_categories c q \<longrightarrow> entry_at (disk st') q = entry_at (disk st) q"
    and "printed st' = printed st @ new" "mset (sources new) \<subseteq># fl"
    and "creatable c (disk st) \<Longrightarrow>
           creatable c (disk st') \<and> mset (sources new) = fl
           \<and> processed st' = processed st + size fl"
  shows "walked c cur fl rest st st'"
  unfolding walked_def using assms by blast

lemma walkedE:
  assumes "walked c cur fl rest st st'"
  obtains new where "while_stack c st = while_stack c st'" "stack st' = rest"
    and "\<forall>q. apart cur q \<and> off_categories c q \<longrightarrow> entry_at (disk st') q = entry_at (disk st) q"
    and "printed st' = printed st @ new" "mset (sources new) \<subseteq># fl"
    and "creatable c (disk st) \<longrightarrow>
           creatable c (disk st') \<and> mset (sources new) = fl
           \<and> processed st' = processed st + size fl"
  using assms unfolding walked_def by blast

lemma walked_refl: "stack st = rest \<Longrightarrow> walked c cur {#} rest st st"
  by (rule walkedI [where new = "[]"]) (simp_all add: sources_def)

lemma walked_compose:
  assumes 1: "walked c cur1 fl1 rest1 st st1" and 2: "walked c cur2 fl2 rest2 st1 st2"
    and p1: "prefix cur cur1" and p2: "prefix cur cur2"
  shows "walked c cur (fl1 + fl2) rest2 st st2"
proof -
  from 1 obtain new1 where n1: "while_stack c st = while_stack c st1"
    "\<forall>q. apart cur1 q \<and> off_categories c q \<longrightarrow> entry_at (disk st1) q = entry_at (disk st) q"
    "printed st1 = printed st @ new1" "mset (sources new1) \<subseteq># fl1"
    "creatable c (disk st) \<longrightarrow>
       creatable c (disk st1) \<and> mset (sources new1) = fl1 \<and> processed st1 = processed st + size fl1"
    by (rule walkedE)
  from 2 obtain new2 where n2: "while_stack c st1 = while_stack c st2" "stack st2 = rest2"
    "\<forall>q. apart cur2 q \<and> off_categories c q \<longrightarrow> entry_at (disk st2) q = entry_at (disk st1) q"
    "printed st2 = printed st1 @ new2" "mset (sources new2) \<subseteq># fl2"
    "creatable c (disk st1) \<longrightarrow>
       creatable c (disk st2) \<and> mset (sources new2) = fl2 \<and> processed st2 = processed st1 + size fl2"
    by (rule walkedE)
  have ap: "apart cur1 q \<and> apart cur2 q" if "apart cur q" for q
    using that p1 p2 by (auto simp: prefix_def apart_extend)
  show ?thesis
  proof (rule walkedI [where new = "new1 @ new2"])
    show "while_stack c st = while_stack c st2" using n1(1) n2(1) by simp
    show "stack st2 = rest2" by (rule n2(2))
    show "\<forall>q. apart cur q \<and> off_categories c q \<longrightarrow> entry_at (disk st2) q = entry_at (disk st) q"
      using n1(2) n2(3) ap by simp
    show "printed st2 = printed st @ new1 @ new2" using n1(3) n2(4) by simp
    show "mset (sources (new1 @ new2)) \<subseteq># fl1 + fl2"
      using subset_mset.add_mono [OF n1(4) n2(5)] by (simp add: sources_append)
    show "creatable c (disk st2) \<and> mset (sources (new1 @ new2)) = fl1 + fl2
        \<and> processed st2 = processed st + size (fl1 + fl2)" if "creatable c (disk st)"
      using that n1(5) n2(6) by (simp add: sources_append)
  qed
qed

lemma classify_listed:
  assumes "entry_at fs cur = Some (l, Dir r w es)" "distinct (map fst es)" "(k, lk, nk) \<in> set es"
  shows "entry_at fs (child cur k) = Some (lk, nk)"
    and "handles c fs (child cur k) \<longleftrightarrow> passes c k lk \<and> nk = File"
    and "pushes c fs (child cur k) \<longleftrightarrow>
           passes c k lk \<and> (\<exists>r w es'. nk = Dir r w es') \<and> k \<notin> set category_labels"
proof -
  from assms show e: "entry_at fs (child cur k) = Some (lk, nk)"
    by (simp add: entry_at_child)
  show "handles c fs (child cur k) \<longleftrightarrow> passes c k lk \<and> nk = File"
    using e by (auto simp: handles_def name_of_child is_symlink_def is_file_entry)
  show "pushes c fs (child cur k) \<longleftrightarrow>
           passes c k lk \<and> (\<exists>r w es'. nk = Dir r w es') \<and> k \<notin> set category_labels"
    using e by (auto simp: pushes_def name_of_child is_symlink_def is_dir_entry)
qed

lemma walk_subtree:
  "wf_node n \<Longrightarrow> n = Dir r w es \<Longrightarrow> entry_at (disk st) cur = Some (l, n) \<Longrightarrow>
   walkable c cur \<Longrightarrow> stack st = rest @ [cur] \<Longrightarrow>
     \<exists>st'. walked c cur (mset (files_under c cur n)) rest st st'"
proof (induction "size n" arbitrary: n r w es st cur rest l rule: less_induct)
  case less
  note wf = less.prems(1) and n = less.prems(2) and at = less.prems(3)
    and cur = less.prems(4) and stk = less.prems(5)
  let ?ks = "map fst es"
  let ?sub = "\<lambda>k. mset (sub_files c cur es k)"
  define st0 where "st0 = st\<lparr>stack := rest\<rparr>"
  have d0: "disk st0 = disk st" "printed st0 = printed st" "stack st0 = rest"
    "processed st0 = processed st"
    by (simp_all add: st0_def)
  have loop: "while_stack c st = while_stack c (visit c cur st0)"
    using stk by (simp add: while_stack_step st0_def)
  have dist: "distinct ?ks" using wf n by simp
  have at0: "entry_at (disk st0) cur = Some (l, Dir r w es)" using at n by (simp add: d0)

  have drain: "\<exists>s'. walked c cur (sum_list (map ?sub ps)) rest s s'"
    if "distinct ps"
      and "\<forall>k \<in> set ps. k \<notin> set category_labels
             \<and> (\<exists>lk rk wk esk. (k, lk, Dir rk wk esk) \<in> set es
                  \<and> entry_at (disk s) (child cur k) = Some (lk, Dir rk wk esk))"
      and "stack s = rest @ map (child cur) ps" for ps s
    using that
  proof (induction ps arbitrary: s rule: rev_induct)
    case Nil
    then show ?case using walked_refl [of s rest c cur] by auto
  next
    case (snoc k ps)
    from snoc.prems(2) obtain lk rk wk esk where k: "k \<notin> set category_labels"
      "(k, lk, Dir rk wk esk) \<in> set es"
      "entry_at (disk s) (child cur k) = Some (lk, Dir rk wk esk)"
      by auto
    have sz: "size (Dir rk wk esk) < size n" using k(2) unfolding n by (rule size_entry)
    have wfk: "wf_node (Dir rk wk esk)" using wf k(2) unfolding n by (rule wf_entry)
    have wk: "walkable c (child cur k)" using cur k(1) by (rule walkable_child)
    have stk': "stack s = (rest @ map (child cur) ps) @ [child cur k]"
      using snoc.prems(3) by simp
    from less.hyps [OF sz wfk refl k(3) wk stk']
    obtain s1 where s1: "walked c (child cur k) (mset (files_under c (child cur k) (Dir rk wk esk)))
        (rest @ map (child cur) ps) s s1"
      by blast
    have sib: "\<forall>k' \<in> set ps. k' \<notin> set category_labels
             \<and> (\<exists>lk rk wk esk. (k', lk, Dir rk wk esk) \<in> set es
                  \<and> entry_at (disk s1) (child cur k') = Some (lk, Dir rk wk esk))"
    proof
      fix k' assume k': "k' \<in> set ps"
      with snoc.prems(1) have ne: "k \<noteq> k'" by auto
      from k' snoc.prems(2) obtain lk' rk' wk' esk' where o: "k' \<notin> set category_labels"
        "(k', lk', Dir rk' wk' esk') \<in> set es"
        "entry_at (disk s) (child cur k') = Some (lk', Dir rk' wk' esk')"
        by auto
      have "walkable c (child cur k')" using cur o(1) by (rule walkable_child)
      then have "off_categories c (child cur k')"
        using child_not_root [OF cur] by (rule walkable_off)
      moreover from ne have "apart (child cur k) (child cur k')" by (rule apart_child_child)
      ultimately have "entry_at (disk s1) (child cur k') = entry_at (disk s) (child cur k')"
        using s1 by (auto elim: walkedE)
      with o show "k' \<notin> set category_labels
             \<and> (\<exists>lk rk wk esk. (k', lk, Dir rk wk esk) \<in> set es
                  \<and> entry_at (disk s1) (child cur k') = Some (lk, Dir rk wk esk))"
        by auto
    qed
    from snoc.prems(1) have dps: "distinct ps" by simp
    from s1 have "stack s1 = rest @ map (child cur) ps" by (auto elim: walkedE)
    from snoc.IH [OF dps sib this]
    obtain s2 where s2: "walked c cur (sum_list (map ?sub ps)) rest s1 s2" by blast
    have "prefix cur (child cur k)" by (simp add: child_def)
    from walked_compose [OF s1 s2 this]
    have "walked c cur (mset (files_under c (child cur k) (Dir rk wk esk)) + sum_list (map ?sub ps))
        rest s s2"
      by simp
    moreover have "?sub k = mset (files_under c (child cur k) (Dir rk wk esk))"
      using k(2) dist by (simp add: sub_files_def)
    ultimately have "walked c cur (sum_list (map ?sub (ps @ [k]))) rest s s2"
      by (simp add: add.commute)
    then show ?case by blast
  qed

  show ?case
  proof (cases r)
    case False
    let ?s = "handle_listing cur PermissionError st0"
    from at0 False have "visit c cur st0 = ?s"
      by (simp add: visit_unreadable iterdir_dir)
    with loop have 1: "while_stack c st = while_stack c ?s" by simp
    obtain ln where ln: "printed ?s = printed st0 @ [ln]" "is_failed_listing ln"
      using handle_listing_simps(3) by blast
    from ln(2) have src: "sources [ln] = []" by (rule failed_listing_source)
    from False n have fu: "files_under c cur n = []" by simp
    have "walked c cur (mset (files_under c cur n)) rest st ?s"
    proof (rule walkedI [where new = "[ln]"])
      show "while_stack c st = while_stack c ?s" by (rule 1)
      show "stack ?s = rest" by (simp add: handle_listing_simps(2) d0)
      show "\<forall>q. apart cur q \<and> off_categories c q \<longrightarrow> entry_at (disk ?s) q = entry_at (disk st) q"
        by (simp add: handle_listing_simps(1) d0)
      show "printed ?s = printed st @ [ln]" using ln(1) by (simp add: d0)
      show "mset (sources [ln]) \<subseteq># mset (files_under c cur n)" by (simp add: src)
      show "creatable c (disk ?s) \<and> mset (sources [ln]) = mset (files_under c cur n)
          \<and> processed ?s = processed st + size (mset (files_under c cur n))"
        if "creatable c (disk st)"
        using that by (simp add: src fu handle_listing_simps(1,4) d0)
    qed
    then show ?thesis by blast
  next
    case True
    let ?rf = "for_entries c (map (child cur) ?ks) st0"
    let ?sf = "after ?rf"
    let ?H = "\<lambda>k. handles c (disk st0) (child cur k)"
    let ?P = "\<lambda>k. pushes c (disk st0) (child cur k)"
    from at0 True have it: "iterdir (disk st0) cur = Inr (map (child cur) ?ks)"
      by (simp add: iterdir_dir)
    from True have rT: "r = True" by simp
    have listed: "entry_at (disk st0) (child cur k) = Some (lk, nk)"
      if "(k, lk, nk) \<in> set es" for k lk nk
      using classify_listed(1) [OF at0 dist that] .
    have rdy: "ready c cur ?ks st0"
      unfolding ready_def
    proof (intro conjI ballI)
      show "walkable c cur" by (rule cur)
      show "distinct ?ks" by (rule dist)
      show "is_dir (disk st0) (root c)"
        using at0 walkable_prefix [OF cur] by (rule entry_at_prefix_dir)
      fix k assume "k \<in> set ?ks"
      then obtain lk nk where "(k, lk, nk) \<in> set es" by auto
      from listed [OF this] show "entry_at (disk st0) (child cur k) \<noteq> None" by simp
    qed
    define sv where "sv = visit c cur st0"
    have sv: "disk sv = disk ?sf" "stack sv = stack ?sf" "processed sv = processed ?sf"
      and "\<exists>hl. printed sv = printed ?sf @ hl \<and> sources hl = [] \<and> (\<not> isl ?rf \<longrightarrow> hl = [])"
    proof -
      show "disk sv = disk ?sf" "stack sv = stack ?sf" "processed sv = processed ?sf"
        using visit_completed [OF it, of c] visit_raised [OF it, of c]
        by (cases "isl ?rf"; auto simp: sv_def handle_listing_simps(1,2,4))+
      show "\<exists>hl. printed sv = printed ?sf @ hl \<and> sources hl = [] \<and> (\<not> isl ?rf \<longrightarrow> hl = [])"
      proof (cases "isl ?rf")
        case True
        from visit_raised [OF it True] obtain e where "sv = handle_listing cur e ?sf"
          by (auto simp: sv_def)
        with handle_listing_simps(3) [of cur e ?sf] True show ?thesis
          by (auto simp: failed_listing_source)
      next
        case False
        with visit_completed [OF it False] show ?thesis by (simp add: sv_def sources_def)
      qed
    qed
    then obtain hl where hl: "printed sv = printed ?sf @ hl" "sources hl = []"
      "\<not> isl ?rf \<longrightarrow> hl = []"
      by blast
    from for_entries_stack [OF rdy]
    obtain ps where ps: "stack ?sf = stack st0 @ map (child cur) ps"
      "set ps \<subseteq> {k \<in> set ?ks. ?P k}" "distinct ps"
      "\<not> isl ?rf \<longrightarrow> ps = filter ?P ?ks"
      by blast
    from for_entries_printed [OF rdy]
    obtain newf where newf: "printed ?sf = printed st0 @ newf"
      "mset (sources newf) \<subseteq># mset (map (child cur) (filter ?H ?ks))"
      "\<not> isl ?rf \<longrightarrow> sources newf = map (child cur) (filter ?H ?ks)"
      by blast
    have pushed: "\<forall>k \<in> set ps. k \<notin> set category_labels
             \<and> (\<exists>lk rk wk esk. (k, lk, Dir rk wk esk) \<in> set es
                  \<and> entry_at (disk sv) (child cur k) = Some (lk, Dir rk wk esk))"
    proof
      fix k assume "k \<in> set ps"
      with ps(2) have k: "k \<in> set ?ks" "?P k" by auto
      then obtain lk nk where e: "(k, lk, nk) \<in> set es" by auto
      from k(2) classify_listed(3) [OF at0 dist e, of c]
      obtain rk wk esk where nk: "nk = Dir rk wk esk" and lab: "k \<notin> set category_labels"
        by auto
      from listed [OF e] nk have "is_dir (disk st0) (child cur k)" by (simp add: is_dir_entry)
      with for_entries_directory [OF rdy lab]
      have "entry_at (disk ?sf) (child cur k) = entry_at (disk st0) (child cur k)" by simp
      with listed [OF e] nk e lab sv(1)
      show "k \<notin> set category_labels
             \<and> (\<exists>lk rk wk esk. (k, lk, Dir rk wk esk) \<in> set es
                  \<and> entry_at (disk sv) (child cur k) = Some (lk, Dir rk wk esk))"
        by auto
    qed
    have "stack sv = rest @ map (child cur) ps" using sv(2) ps(1) d0 by simp
    from drain [OF ps(3) pushed this]
    obtain s' where s': "walked c cur (sum_list (map ?sub ps)) rest sv s'" by blast
    then obtain newd where newd: "while_stack c sv = while_stack c s'" "stack s' = rest"
      "\<forall>q. apart cur q \<and> off_categories c q \<longrightarrow> entry_at (disk s') q = entry_at (disk sv) q"
      "printed s' = printed sv @ newd"
      "mset (sources newd) \<subseteq># sum_list (map ?sub ps)"
      "creatable c (disk sv) \<longrightarrow>
         creatable c (disk s') \<and> mset (sources newd) = sum_list (map ?sub ps)
         \<and> processed s' = processed sv + size (sum_list (map ?sub ps))"
      by (rule walkedE)
    have split: "mset (files_under c cur n)
        = mset (map (child cur) (filter ?H ?ks)) + sum_list (map ?sub (filter ?P ?ks))"
      unfolding n rT
      using classify_listed(2,3) [OF at0 dist]
      by (intro files_under_split [OF dist]) blast+
    have srcs: "mset (sources (newf @ hl @ newd)) = mset (sources newf) + mset (sources newd)"
      by (simp add: sources_append hl(2))
    have "walked c cur (mset (files_under c cur n)) rest st s'"
    proof (rule walkedI [where new = "newf @ hl @ newd"])
      show "while_stack c st = while_stack c s'"
        using loop newd(1) by (simp add: sv_def)
      show "stack s' = rest" by (rule newd(2))
      show "\<forall>q. apart cur q \<and> off_categories c q \<longrightarrow> entry_at (disk s') q = entry_at (disk st) q"
        using newd(3) for_entries_outside [OF rdy] sv(1) d0 by simp
      show "printed s' = printed st @ newf @ hl @ newd"
        using newd(4) hl(1) newf(1) d0 by simp
      show "mset (sources (newf @ hl @ newd)) \<subseteq># mset (files_under c cur n)"
      proof -
        from ps(2) have "set ps \<subseteq> set (filter ?P ?ks)" by auto
        with ps(3) have "sum_list (map ?sub ps) \<subseteq># sum_list (map ?sub (filter ?P ?ks))"
          by (rule sum_list_among)
        with newd(5) have "mset (sources newd) \<subseteq># sum_list (map ?sub (filter ?P ?ks))"
          by (rule subset_mset.order_trans)
        with newf(2) show ?thesis
          unfolding srcs split by (rule subset_mset.add_mono)
      qed
      show "creatable c (disk s') \<and> mset (sources (newf @ hl @ newd)) = mset (files_under c cur n)
          \<and> processed s' = processed st + size (mset (files_under c cur n))"
        if cr: "creatable c (disk st)"
      proof -
        from cr have "creatable c (disk st0)" by (simp add: d0)
        from for_entries_creatable [OF rdy this]
        have ni: "\<not> isl ?rf" and cr1: "creatable c (disk ?sf)"
          and pr1: "processed ?sf = processed st0 + length (filter ?H ?ks)"
          by simp_all
        from ni ps(4) have ps': "ps = filter ?P ?ks" by simp
        from ni newf(3) have nf': "sources newf = map (child cur) (filter ?H ?ks)" by simp
        from cr1 newd(6) have fin: "creatable c (disk s')"
          "mset (sources newd) = sum_list (map ?sub ps)"
          "processed s' = processed sv + size (sum_list (map ?sub ps))"
          by (simp_all add: sv(1))
        have "mset (sources (newf @ hl @ newd)) = mset (files_under c cur n)"
          unfolding srcs split by (simp add: nf' fin(2) ps')
        moreover have "processed s' = processed st + size (mset (files_under c cur n))"
        proof -
          have sz: "size (mset (map (child cur) (filter ?H ?ks))
                + sum_list (map ?sub (filter ?P ?ks)))
              = length (filter ?H ?ks) + size (sum_list (map ?sub (filter ?P ?ks)))"
            by (simp only: size_union size_mset length_map)
          from fin(3) have "processed s' = processed ?sf + size (sum_list (map ?sub (filter ?P ?ks)))"
            by (simp only: sv(3) ps')
          with pr1 have "processed s'
              = processed st + (length (filter ?H ?ks) + size (sum_list (map ?sub (filter ?P ?ks))))"
            by (simp only: d0 add.assoc)
          then show ?thesis by (simp only: split sz)
        qed
        ultimately show ?thesis using fin(1) by simp
      qed
    qed
    then show ?thesis by blast
  qed
qed

section \<open>Whole runs\<close>

lemma while_stack_invariant:
  assumes run: "while_stack c st = Some st'" and init: "I st"
    and step: "\<And>s. I s \<Longrightarrow> stack s \<noteq> [] \<Longrightarrow>
                 I (visit c (last (stack s)) (s\<lparr>stack := butlast (stack s)\<rparr>))"
  shows "I st' \<and> stack st' = []"
proof -
  let ?keeps = "\<lambda>c. \<forall>s. I s \<longrightarrow> stack s \<noteq> [] \<longrightarrow>
            I (visit c (last (stack s)) (s\<lparr>stack := butlast (stack s)\<rparr>))"
  let ?P = "\<lambda>c s y. ?keeps c \<longrightarrow> I s \<longrightarrow> I y \<and> stack y = []"
  have "?P c st st'"
  proof (rule while_stack.raw_induct [where P = ?P, OF _ run])
    fix f :: "config \<Rightarrow> run \<Rightarrow> run option" and c' s y
    assume IH: "\<And>c s y. f c s = Some y \<Longrightarrow> ?P c s y"
      and eq: "(if stack s = [] then Some s
                else f c' (visit c' (last (stack s)) (s\<lparr>stack := butlast (stack s)\<rparr>))) = Some y"
    show "?P c' s y"
    proof (cases "stack s = []")
      case True
      with eq have "y = s" by simp
      with True show ?thesis by simp
    next
      case False
      with eq have "f c' (visit c' (last (stack s)) (s\<lparr>stack := butlast (stack s)\<rparr>)) = Some y"
        by simp
      from IH [OF this] False show ?thesis by blast
    qed
  qed
  with init step show ?thesis by blast
qed

lemma organize_iterative_valid:
  "is_dir fs0 (root c) \<Longrightarrow> organize_iterative c fs0 = map_option Inr (while_stack c (start c fs0))"
  by (auto simp: organize_iterative_def is_dir_def exists_def split: option.splits node.splits)

lemma organize_walks_root:
  assumes root: "entry_at fs0 (root c) = Some (l, Dir r w es)" and wf: "wf_node (Dir r w es)"
  shows "\<exists>st. organize_iterative c fs0 = Some (Inr st) \<and> stack st = []
           \<and> mset (sources (printed st)) \<subseteq># mset (files_under c (root c) (Dir r w es))
           \<and> (creatable c fs0 \<longrightarrow>
                mset (sources (printed st)) = mset (files_under c (root c) (Dir r w es))
                \<and> processed st = length (files_under c (root c) (Dir r w es)))"
proof -
  let ?fl = "mset (files_under c (root c) (Dir r w es))"
  have "stack (start c fs0) = [] @ [root c]" "entry_at (disk (start c fs0)) (root c) = Some (l, Dir r w es)"
    using root by (simp_all add: start_def)
  from walk_subtree [OF wf refl this(2) walkable_root this(1)]
  obtain st where "walked c (root c) ?fl [] (start c fs0) st"
    by blast
  then obtain new where st: "while_stack c (start c fs0) = while_stack c st" "stack st = []"
    "printed st = printed (start c fs0) @ new" "mset (sources new) \<subseteq># ?fl"
    "creatable c (disk (start c fs0)) \<longrightarrow>
       creatable c (disk st) \<and> mset (sources new) = ?fl
       \<and> processed st = processed (start c fs0) + size ?fl"
    by (rule walkedE)
  from st(1,2) have "while_stack c (start c fs0) = Some st"
    by (simp add: while_stack_done)
  moreover from root have "is_dir fs0 (root c)" by (simp add: is_dir_entry)
  ultimately have "organize_iterative c fs0 = Some (Inr st)"
    by (simp add: organize_iterative_valid)
  moreover from st(3) have "printed st = new" by (simp add: start_def)
  moreover have "disk (start c fs0) = fs0" "processed (start c fs0) = 0"
    by (simp_all add: start_def)
  ultimately show ?thesis using st(2,4,5) by auto
qed

text \<open>The counters and the printed lines.\<close>

lemma count_of_increment:
  "count_of (increment c s) cat = (if cat = c then count_of s c + 1 else count_of s cat)"
  by (simp add: increment_def count_of_def update_conv')

lemma sum_increment: "sum_list (map snd (increment c s)) = sum_list (map snd s) + 1"
proof -
  have "sum_list (map snd (AList.update c (count_of (pre @ s) c + 1) s))
          = sum_list (map snd s) + 1" if "c \<notin> fst ` set pre" for pre
    using that
  proof (induction s arbitrary: pre)
    case Nil
    then have "map_of pre c = None" by (simp add: map_of_eq_None_iff)
    then show ?case by (simp add: count_of_def)
  next
    case (Cons a s)
    obtain k v where a: "a = (k, v)" by (cases a)
    show ?case
    proof (cases "k = c")
      case True
      from Cons.prems have "map_of pre c = None" by (simp add: map_of_eq_None_iff)
      then show ?thesis by (simp add: a True count_of_def map_add_def)
    next
      case False
      with Cons.prems have "c \<notin> fst ` set (pre @ [a])" by (simp add: a)
      from Cons.IH [OF this] False show ?thesis by (simp add: a)
    qed
  qed
  from this [of "[]"] show ?thesis by (simp add: increment_def)
qed

lemma accounted_mono: "accounted 0 st \<Longrightarrow> accounted 1 st"
  by (simp add: accounted_def)

lemma accounted_handle_listing: "accounted 1 st \<Longrightarrow> accounted 0 (handle_listing cur e st)"
  by (simp add: accounted_def handle_listing_def sources_def moved_def)

lemma accounted_step:
  assumes "accounted 0 st"
  shows "accounted (if isl (process_entry c p st) then 1 else 0) (after (process_entry c p st))"
proof (cases "handles c (disk st) p")
  case False
  then have "\<not> isl (process_entry c p st)" using raised_is_file by blast
  moreover have "printed (after (process_entry c p st)) = printed st"
    "summary (after (process_entry c p st)) = summary st"
    "errors (after (process_entry c p st)) = errors st"
    "processed (after (process_entry c p st)) = processed st"
    using False
    by (cases "pushes c (disk st) p"; simp add: process_entry_push process_entry_skip after_def)+
  ultimately show ?thesis using assms by (simp add: accounted_def)
next
  case True
  note sh = process_entry_file_shape [OF True]
  show ?thesis
  proof (cases "isl (process_entry c p st)")
    case True
    with sh(2) sh(3) assms show ?thesis by (simp add: accounted_def)
  next
    case False
    define s' where "s' = after (process_entry c p st)"
    let ?cat = "resolve_category (get_extension_lower p)"
    have pr: "processed s' = processed st + 1" using sh(2) by (simp add: s'_def)
    from sh(4) [OF False] consider
        (would) d where "printed s' = printed st @ [WouldMove p d]"
          "summary s' = increment ?cat (summary st)" "errors s' = errors st"
      | (carried) d where "printed s' = printed st @ [Moved p d]"
          "summary s' = increment ?cat (summary st)" "errors s' = errors st"
      | (failed) m where "printed s' = printed st @ [ErrorMoving p m]"
          "summary s' = summary st" "errors s' = errors st @ [(p, m)]"
      unfolding s'_def by blast
    then have "accounted 0 s'"
    proof cases
      case would
      with pr assms show ?thesis
        by (simp add: accounted_def sources_def moved_def sum_increment count_of_increment)
    next
      case carried
      with pr assms show ?thesis
        by (simp add: accounted_def sources_def moved_def sum_increment count_of_increment)
    next
      case failed
      with pr assms show ?thesis
        by (simp add: accounted_def sources_def moved_def)
    qed
    with False show ?thesis by (simp add: s'_def)
  qed
qed

lemma accounted_stack: "accounted j (st\<lparr>stack := x\<rparr>) = accounted j st"
  by (simp add: accounted_def)

lemma accounted_for_entries:
  "accounted 0 st \<Longrightarrow>
     accounted (if isl (for_entries c ps st) then 1 else 0) (after (for_entries c ps st))"
proof (induction ps arbitrary: st)
  case Nil
  then show ?case by (simp add: after_def)
next
  case (Cons p ps)
  show ?case
  proof (cases "isl (process_entry c p st)")
    case True
    with accounted_step [OF Cons.prems, of c p] show ?thesis
      by (simp del: for_entries.simps add: for_entries_raised)
  next
    case False
    with accounted_step [OF Cons.prems, of c p]
    have "accounted 0 (after (process_entry c p st))" by simp
    from Cons.IH [OF this] False show ?thesis
      by (simp del: for_entries.simps add: for_entries_next)
  qed
qed

lemma accounted_visit:
  assumes "accounted 0 st"
  shows "accounted 0 (visit c cur st)"
proof (cases "iterdir (disk st) cur")
  case (Inl e)
  with accounted_handle_listing [OF accounted_mono [OF assms], of cur e] show ?thesis
    by (simp add: visit_unreadable)
next
  case (Inr ps)
  show ?thesis
  proof (cases "isl (for_entries c ps st)")
    case True
    from visit_raised [OF Inr True] obtain e
      where "visit c cur st = handle_listing cur e (after (for_entries c ps st))" by blast
    with accounted_for_entries [OF assms, of c ps] True show ?thesis
      by (simp add: accounted_handle_listing)
  next
    case False
    with accounted_for_entries [OF assms, of c ps] visit_completed [OF Inr False]
    show ?thesis by simp
  qed
qed

lemma accounted_result:
  assumes "organize_iterative c fs0 = Some (Inr st)"
  shows "accounted 0 st"
proof -
  from assms have run: "while_stack c (start c fs0) = Some st"
    by (auto simp: organize_iterative_def split: if_splits)
  have "accounted 0 (start c fs0)"
    by (simp add: accounted_def start_def sources_def moved_def count_of_def)
  from run this show ?thesis
    by (rule while_stack_invariant [THEN conjunct1]) (simp add: accounted_visit accounted_stack)
qed

section \<open>Category folders are left alone\<close>

lemma step_sources:
  "set (sources (printed (after (process_entry c p st)))) \<subseteq> set (sources (printed st)) \<union> {p}"
proof (cases "isl (process_entry c p st)")
  case True
  then have "handles c (disk st) p" by (rule raised_is_file)
  from process_entry_file_shape(3) [OF this True] show ?thesis by auto
next
  case False
  with step_printed [of c p st] show ?thesis
    by (auto simp: sources_append split: if_splits)
qed

lemma tidy_step:
  assumes I: "(\<forall>p \<in> set (stack st). walkable c p)
            \<and> (\<forall>src \<in> set (sources (printed st)). walkable c (parent src))"
    and cur: "walkable c cur"
  shows "(\<forall>p \<in> set (stack (after (process_entry c (child cur k) st))). walkable c p)
       \<and> (\<forall>src \<in> set (sources (printed (after (process_entry c (child cur k) st)))).
            walkable c (parent src))"
proof (intro conjI ballI)
  fix p assume "p \<in> set (stack (after (process_entry c (child cur k) st)))"
  then have "p \<in> set (stack st) \<or> (p = child cur k \<and> pushes c (disk st) (child cur k))"
    by (auto simp: step_stack split: if_splits)
  then show "walkable c p"
    using I cur by (auto simp: pushes_def name_of_child intro: walkable_child)
next
  fix src assume "src \<in> set (sources (printed (after (process_entry c (child cur k) st))))"
  with step_sources [of c "child cur k" st]
  have "src \<in> set (sources (printed st)) \<or> src = child cur k" by auto
  then show "walkable c (parent src)"
    using I cur by (auto simp: parent_child)
qed

lemma tidy_for_entries:
  "(\<forall>p \<in> set (stack st). walkable c p)
     \<and> (\<forall>src \<in> set (sources (printed st)). walkable c (parent src)) \<Longrightarrow>
   walkable c cur \<Longrightarrow>
   (\<forall>p \<in> set (stack (after (for_entries c (map (child cur) ks) st))). walkable c p)
     \<and> (\<forall>src \<in> set (sources (printed (after (for_entries c (map (child cur) ks) st)))).
          walkable c (parent src))"
proof (induction ks arbitrary: st)
  case Nil
  then show ?case by (simp add: after_def)
next
  case (Cons k ks)
  note 1 = tidy_step [OF Cons.prems]
  show ?case
  proof (cases "isl (process_entry c (child cur k) st)")
    case True
    with 1 [of k] show ?thesis by (simp del: for_entries.simps add: for_entries_raised)
  next
    case False
    with Cons.IH [OF 1 Cons.prems(2)] show ?thesis
      by (simp del: for_entries.simps add: for_entries_next)
  qed
qed

lemma iterdir_children: "iterdir fs p = Inr ps \<Longrightarrow> \<exists>ks. ps = map (child p) ks"
proof -
  assume a: "iterdir fs p = Inr ps"
  then obtain l r w es where "entry_at fs p = Some (l, Dir r w es)"
    by (auto simp: iterdir_def split: option.splits node.splits)
  with a have "ps = map (child p) (map fst es)" by (auto simp: iterdir_dir split: if_splits)
  then show ?thesis by blast
qed

lemma sources_handle_listing:
  "sources (printed (handle_listing cur e st)) = sources (printed st)"
  by (simp add: handle_listing_def sources_def)

lemma tidy_visit:
  assumes I: "(\<forall>p \<in> set (stack st). walkable c p)
            \<and> (\<forall>src \<in> set (sources (printed st)). walkable c (parent src))"
    and cur: "walkable c cur"
  shows "(\<forall>p \<in> set (stack (visit c cur st)). walkable c p)
       \<and> (\<forall>src \<in> set (sources (printed (visit c cur st))). walkable c (parent src))"
proof (cases "iterdir (disk st) cur")
  case (Inl e)
  with I show ?thesis
    by (simp add: visit_unreadable sources_handle_listing handle_listing_simps(2))
next
  case (Inr ps)
  then obtain ks where ks: "ps = map (child cur) ks" using iterdir_children by blast
  note 1 = tidy_for_entries [OF I cur, of ks]
  show ?thesis
  proof (cases "isl (for_entries c ps st)")
    case True
    from visit_raised [OF Inr True] obtain e
      where "visit c cur st = handle_listing cur e (after (for_entries c ps st))" by blast
    with 1 show ?thesis
      by (simp add: ks sources_handle_listing handle_listing_simps(2))
  next
    case False
    with 1 visit_completed [OF Inr False] show ?thesis by (simp add: ks)
  qed
qed

lemma tidy_result:
  assumes "organize_iterative c fs0 = Some (Inr st)"
  shows "\<forall>src \<in> set (sources (printed st)). walkable c (parent src)"
proof -
  let ?I = "\<lambda>st :: run. (\<forall>p \<in> set (stack st). walkable c p)
            \<and> (\<forall>src \<in> set (sources (printed st)). walkable c (parent src))"
  from assms have run: "while_stack c (start c fs0) = Some st"
    by (auto simp: organize_iterative_def split: if_splits)
  have init: "?I (start c fs0)" by (simp add: start_def sources_def walkable_root)
  have "?I st \<and> stack st = []"
    using run init
  proof (rule while_stack_invariant)
    fix s :: run assume s: "?I s" "stack s \<noteq> []"
    then have "walkable c (last (stack s))" by simp
    moreover from s have "?I (s\<lparr>stack := butlast (stack s)\<rparr>)"
      by (auto dest: in_set_butlastD)
    ultimately show "?I (visit c (last (stack s)) (s\<lparr>stack := butlast (stack s)\<rparr>))"
      by (intro tidy_visit)
  qed
  then show ?thesis by simp
qed

lemma category_entry_skipped:
  "is_dir (disk st) p \<Longrightarrow> name_of p \<in> set category_labels \<Longrightarrow> process_entry c p st = Inr st"
  by (simp add: process_entry_def)

text \<open>
  C5.  The loop body leaves the state as it is for a directory entry named like a
  category or \<open>Others\<close>: the entry is not pushed, so it is never listed.  In every
  completed run, each file that was handled (moved, reported as a would-be move, or
  failed to move) lay in a directory reached from the root through names that are not
  category labels: a file inside a category folder is never handled again.
\<close>

theorem category_directories_skipped:
  "(is_dir (disk st) p \<and> name_of p \<in> set category_labels \<longrightarrow> process_entry c p st = Inr st)
   \<and> (organize_iterative c fs0 = Some (Inr st') \<longrightarrow>
        (\<forall>src \<in> set (sources (printed st')). walkable c (parent src)))"
  using category_entry_skipped [of st p c] tidy_result [of c fs0 st'] by blast

theorem category_directories_skipped_witness:
  "is_dir (Dir True True [(''home'', False, Dir True True
             [(''Images'', False, Dir True True [(''z.png'', False, File)]),
              (''a.jpg'', False, File)])])
      [''home'', ''Images'']
   \<and> name_of [''home'', ''Images''] \<in> set category_labels
   \<and> process_entry
        \<lparr>root = [''home''], dry_run = False, include_hidden = True, follow_symlinks = True\<rparr>
        [''home'', ''Images'']
        (start \<lparr>root = [''home''], dry_run = False, include_hidden = True, follow_symlinks = True\<rparr>
          (Dir True True [(''home'', False, Dir True True
             [(''Images'', False, Dir True True [(''z.png'', False, File)]),
              (''a.jpg'', False, File)])]))
      = Inr (start \<lparr>root = [''home''], dry_run = False, include_hidden = True, follow_symlinks = True\<rparr>
          (Dir True True [(''home'', False, Dir True True
             [(''Images'', False, Dir True True [(''z.png'', False, File)]),
              (''a.jpg'', False, File)])]))
   \<and> (\<exists>st'. organize_iterative
          \<lparr>root = [''home''], dry_run = False, include_hidden = True, follow_symlinks = True\<rparr>
          (Dir True True [(''home'', False, Dir True True
             [(''Images'', False, Dir True True [(''z.png'', False, File)]),
              (''a.jpg'', False, File)])]) = Some (Inr st')
         \<and> sources (printed st') = [[''home'', ''a.jpg'']]
         \<and> walkable \<lparr>root = [''home''], dry_run = False, include_hidden = True,
               follow_symlinks = True\<rparr> (parent [''home'', ''a.jpg'']))"
proof -
  let ?c = "\<lparr>root = [''home''], dry_run = False, include_hidden = True, follow_symlinks = True\<rparr>"
  let ?fs = "Dir True True [(''home'', False, Dir True True
             [(''Images'', False, Dir True True [(''z.png'', False, File)]),
              (''a.jpg'', False, File)])]"
  have a: "is_dir (disk (start ?c ?fs)) [''home'', ''Images'']" by code_simp
  have b: "name_of [''home'', ''Images''] \<in> set category_labels" by code_simp
  have r: "map_option (map_sum id (sources \<circ> printed)) (organize_iterative ?c ?fs)
             = Some (Inr [[''home'', ''a.jpg'']])"
    by code_simp
  then obtain st' where st': "organize_iterative ?c ?fs = Some (Inr st')"
    "sources (printed st') = [[''home'', ''a.jpg'']]"
    by (cases "organize_iterative ?c ?fs") (auto simp: map_sum_def split: sum.splits)
  from category_directories_skipped [of "start ?c ?fs" "[''home'', ''Images'']" ?c ?fs st'] a b st'
  have "process_entry ?c [''home'', ''Images''] (start ?c ?fs) = Inr (start ?c ?fs)"
    "walkable ?c (parent [''home'', ''a.jpg''])"
    by simp_all
  moreover from a have "is_dir ?fs [''home'', ''Images'']" by (simp add: start_def)
  ultimately show ?thesis using b st' by blast
qed

section \<open>Errors are recorded and the walk goes on\<close>

lemma listing_error_recorded:
  assumes "stack st = rest @ [cur]" "iterdir (disk st) cur = Inl e"
  shows "while_stack c st = while_stack c (handle_listing cur e (st\<lparr>stack := rest\<rparr>))"
    and "errors (handle_listing cur e (st\<lparr>stack := rest\<rparr>))
           = errors st @ [(cur, if e = PermissionError then ''PermissionError: '' @ str_of e
                                else str_of e)]"
    and "stack (handle_listing cur e (st\<lparr>stack := rest\<rparr>)) = rest"
    and "disk (handle_listing cur e (st\<lparr>stack := rest\<rparr>)) = disk st"
proof -
  from assms(2) have "visit c cur (st\<lparr>stack := rest\<rparr>) = handle_listing cur e (st\<lparr>stack := rest\<rparr>)"
    by (simp add: visit_unreadable)
  with assms(1) show "while_stack c st = while_stack c (handle_listing cur e (st\<lparr>stack := rest\<rparr>))"
    by (simp add: while_stack_step)
qed (simp_all add: handle_listing_def)

lemma move_error_recorded:
  assumes h: "handles c (disk st) p"
    and mk: "mkdir (disk st) (child (root c) (resolve_category (get_extension_lower p))) = Inr fs1"
    and nd: "\<not> dry_run c"
    and mv: "move fs1 p (make_unique_target fs1
               (child (child (root c) (resolve_category (get_extension_lower p))) (name_of p)))
             = (fs2, Some e)"
  shows "for_entries c (p # ps) st
       = for_entries c ps
           (st\<lparr>processed := processed st + 1, disk := fs2,
               errors := errors st @ [(p, str_of e)],
               printed := printed st @ [ErrorMoving p (str_of e)]\<rparr>)"
proof -
  from h have f: "is_file (disk st) p" "\<not> is_dir (disk st) p"
    "(\<not> include_hidden c \<and> startswith (name_of p) ''.'') = False"
    "(is_symlink (disk st) p \<and> \<not> follow_symlinks c) = False"
    by (auto simp: handles_def passes_def is_file_def is_dir_def split: option.splits node.splits)
  have "process_entry c p st
       = Inr (st\<lparr>processed := processed st + 1, disk := fs2,
               errors := errors st @ [(p, str_of e)],
               printed := printed st @ [ErrorMoving p (str_of e)]\<rparr>)"
    unfolding process_entry_def Let_def f(3,4) using f(1,2) mk nd mv by simp
  then show ?thesis by simp
qed

lemma error_lines_recorded:
  assumes "entry_at fs0 (root c) = Some (l, Dir r w es)" "wf_node (Dir r w es)"
  shows "\<exists>st'. organize_iterative c fs0 = Some (Inr st') \<and> stack st' = []
           \<and> length (errors st') = length (filter (\<lambda>ln. \<not> is_move ln) (printed st'))"
proof -
  from organize_walks_root [OF assms] obtain st'
    where st': "organize_iterative c fs0 = Some (Inr st')" "stack st' = []" by blast
  from accounted_result [OF st'(1)] st' show ?thesis by (auto simp: accounted_def)
qed

text \<open>
  C7.  A failed listing of the directory just popped is recorded as a pair of that
  directory and a message, the file system and the rest of the stack stay as they are,
  and the loop goes on with the rest of the stack.  A failed move of a file is recorded
  as a pair of the file and the message, and the \<open>for\<close> loop goes on with the remaining
  entries.  On a well-formed tree with a directory as root the walk ends, so the summary
  is produced, and the error list has one pair for each error line printed.
\<close>

theorem errors_recorded_walk_continues:
  "(stack st = rest @ [cur] \<and> iterdir (disk st) cur = Inl e \<longrightarrow>
      while_stack c st = while_stack c (handle_listing cur e (st\<lparr>stack := rest\<rparr>))
      \<and> errors (handle_listing cur e (st\<lparr>stack := rest\<rparr>))
           = errors st @ [(cur, if e = PermissionError then ''PermissionError: '' @ str_of e
                                else str_of e)]
      \<and> stack (handle_listing cur e (st\<lparr>stack := rest\<rparr>)) = rest
      \<and> disk (handle_listing cur e (st\<lparr>stack := rest\<rparr>)) = disk st)
   \<and> (handles c (disk st) p
       \<and> mkdir (disk st) (child (root c) (resolve_category (get_extension_lower p))) = Inr fs1
       \<and> \<not> dry_run c
       \<and> move fs1 p (make_unique_target fs1
               (child (child (root c) (resolve_category (get_extension_lower p))) (name_of p)))
             = (fs2, Some e') \<longrightarrow>
        for_entries c (p # ps) st
          = for_entries c ps
              (st\<lparr>processed := processed st + 1, disk := fs2,
                  errors := errors st @ [(p, str_of e')],
                  printed := printed st @ [ErrorMoving p (str_of e')]\<rparr>))
   \<and> (entry_at fs0 (root c) = Some (l, Dir r w es) \<and> wf_node (Dir r w es) \<longrightarrow>
        (\<exists>st'. organize_iterative c fs0 = Some (Inr st') \<and> stack st' = []
           \<and> length (errors st') = length (filter (\<lambda>ln. \<not> is_move ln) (printed st'))))"
proof (intro conjI impI)
  assume a: "stack st = rest @ [cur] \<and> iterdir (disk st) cur = Inl e"
  then have 1: "stack st = rest @ [cur]" and 2: "iterdir (disk st) cur = Inl e" by simp_all
  from listing_error_recorded [OF 1 2]
  show "while_stack c st = while_stack c (handle_listing cur e (st\<lparr>stack := rest\<rparr>))"
    "errors (handle_listing cur e (st\<lparr>stack := rest\<rparr>))
           = errors st @ [(cur, if e = PermissionError then ''PermissionError: '' @ str_of e
                                else str_of e)]"
    "stack (handle_listing cur e (st\<lparr>stack := rest\<rparr>)) = rest"
    "disk (handle_listing cur e (st\<lparr>stack := rest\<rparr>)) = disk st"
    by simp_all
next
  assume "handles c (disk st) p
       \<and> mkdir (disk st) (child (root c) (resolve_category (get_extension_lower p))) = Inr fs1
       \<and> \<not> dry_run c
       \<and> move fs1 p (make_unique_target fs1
               (child (child (root c) (resolve_category (get_extension_lower p))) (name_of p)))
             = (fs2, Some e')"
  then show "for_entries c (p # ps) st
          = for_entries c ps
              (st\<lparr>processed := processed st + 1, disk := fs2,
                  errors := errors st @ [(p, str_of e')],
                  printed := printed st @ [ErrorMoving p (str_of e')]\<rparr>)"
    by (intro move_error_recorded) blast+
next
  assume "entry_at fs0 (root c) = Some (l, Dir r w es) \<and> wf_node (Dir r w es)"
  then show "\<exists>st'. organize_iterative c fs0 = Some (Inr st') \<and> stack st' = []
           \<and> length (errors st') = length (filter (\<lambda>ln. \<not> is_move ln) (printed st'))"
    by (intro error_lines_recorded) blast+
qed

theorem errors_recorded_walk_continues_witness:
  "iterdir locked_tree [''home'', ''locked''] = Inl PermissionError
   \<and> errors (handle_listing [''home'', ''locked''] PermissionError
         ((start (demo_config False) locked_tree)\<lparr>stack := []\<rparr>))
       = [([''home'', ''locked''], ''PermissionError: [Errno 13] Permission denied'')]
   \<and> handles (demo_config False) locked_tree [''home'', ''a.jpg'']
   \<and> mkdir locked_tree [''home'', ''Images''] = Inr locked_tree
   \<and> move locked_tree [''home'', ''a.jpg''] [''home'', ''Images'', ''a.jpg'']
       = (locked_tree, Some PermissionError)
   \<and> for_entries (demo_config False) [[''home'', ''a.jpg''], [''home'', ''Images'']]
         (start (demo_config False) locked_tree)
       = for_entries (demo_config False) [[''home'', ''Images'']]
           ((start (demo_config False) locked_tree)
              \<lparr>processed := 1,
                 errors := [([''home'', ''a.jpg''], ''[Errno 13] Permission denied'')],
                 printed := [ErrorMoving [''home'', ''a.jpg''] ''[Errno 13] Permission denied'']\<rparr>)
   \<and> entry_at locked_tree (root (demo_config False)) = Some (False, Dir True True locked_home)
   \<and> wf_node (Dir True True locked_home)
   \<and> (\<exists>st'. organize_iterative (demo_config False) locked_tree = Some (Inr st')
          \<and> stack st' = [] \<and> length (errors st') = 2)"
proof -
  let ?c = "demo_config False"
  let ?s = "start ?c locked_tree"
  let ?p = "[''home'', ''a.jpg'']"
  let ?cur = "[''home'', ''locked'']"
  let ?s1 = "?s\<lparr>stack := [] @ [?cur]\<rparr>"
  have a1: "stack ?s1 = [] @ [?cur]" by simp
  have a2: "iterdir (disk ?s1) ?cur = Inl PermissionError" by code_simp
  from errors_recorded_walk_continues [of ?s1 "[]" ?cur PermissionError ?c] a1 a2
  have c1: "errors (handle_listing ?cur PermissionError (?s1\<lparr>stack := []\<rparr>))
      = errors ?s1 @ [(?cur, if PermissionError = PermissionError
           then ''PermissionError: '' @ str_of PermissionError else str_of PermissionError)]"
    by blast
  have c1': "errors (handle_listing ?cur PermissionError (?s\<lparr>stack := []\<rparr>))
       = [(?cur, ''PermissionError: [Errno 13] Permission denied'')]"
    using c1 by (simp add: start_def str_of_def)
  have b1: "handles ?c (disk ?s) ?p" by code_simp
  have b2: "mkdir (disk ?s) (child (root ?c) (resolve_category (get_extension_lower ?p)))
      = Inr locked_tree" by code_simp
  have b3: "\<not> dry_run ?c" by code_simp
  have b4: "move locked_tree ?p (make_unique_target locked_tree
        (child (child (root ?c) (resolve_category (get_extension_lower ?p))) (name_of ?p)))
      = (locked_tree, Some PermissionError)" by code_simp
  from errors_recorded_walk_continues [of ?s _ _ _ ?c ?p locked_tree locked_tree PermissionError
      "[[''home'', ''Images'']]"] b1 b2 b3 b4
  have c2: "for_entries ?c (?p # [[''home'', ''Images'']]) ?s
      = for_entries ?c [[''home'', ''Images'']]
          (?s\<lparr>processed := processed ?s + 1, disk := locked_tree,
              errors := errors ?s @ [(?p, str_of PermissionError)],
              printed := printed ?s @ [ErrorMoving ?p (str_of PermissionError)]\<rparr>)"
    by blast
  have c2': "for_entries ?c [?p, [''home'', ''Images'']] ?s
       = for_entries ?c [[''home'', ''Images'']]
           (?s\<lparr>processed := 1,
               errors := [(?p, ''[Errno 13] Permission denied'')],
               printed := [ErrorMoving ?p ''[Errno 13] Permission denied'']\<rparr>)"
    using c2 by (simp add: start_def str_of_def)
  have d1: "entry_at locked_tree (root ?c) = Some (False, Dir True True locked_home)"
    by (simp add: locked_tree_def demo_config_def entry_at_def)
  have d2: "wf_node (Dir True True locked_home)" by code_simp
  from errors_recorded_walk_continues [of _ _ _ _ ?c _ _ _ _ _ locked_tree False True True
      locked_home] d1 d2
  obtain st' where st': "organize_iterative ?c locked_tree = Some (Inr st')" "stack st' = []"
    by blast
  have "map_option (map_sum id (length \<circ> errors)) (organize_iterative ?c locked_tree)
      = Some (Inr 2)" by code_simp
  with st' have c3: "length (errors st') = 2" by simp
  have h1: "iterdir locked_tree ?cur = Inl PermissionError" using a2 by (simp add: start_def)
  have h2: "handles ?c locked_tree ?p" using b1 by (simp add: start_def)
  have h3: "mkdir locked_tree [''home'', ''Images''] = Inr locked_tree" by code_simp
  have h4: "move locked_tree ?p [''home'', ''Images'', ''a.jpg'']
      = (locked_tree, Some PermissionError)" by code_simp
  from h1 c1' h2 h3 h4 c2' d1 d2 st' c3 show ?thesis by blast
qed

section \<open>Every file is handled once\<close>

lemma files_under_below:
  "x \<in> set (files_under c p n) \<Longrightarrow> prefix p x \<and> x \<noteq> p"
proof (induction c p n arbitrary: x rule: files_under.induct)
  case (1 c p r w es)
  from "1.prems" have r: "\<not> \<not> r" by (auto split: if_splits)
  with "1.prems" obtain e where e: "e \<in> set es"
    and x: "x \<in> set (if \<not> passes c (fst e) (fst (snd e)) then []
        else if snd (snd e) = File then [child p (fst e)]
        else if fst e \<in> set category_labels then []
        else files_under c (child p (fst e)) (snd (snd e)))"
    by auto
  have "prefix (child p (fst e)) x"
  proof (cases "snd (snd e) = File")
    case True
    with x show ?thesis by (auto split: if_splits)
  next
    case False
    with x have "\<not> \<not> passes c (fst e) (fst (snd e))" "fst e \<notin> set category_labels"
      "x \<in> set (files_under c (child p (fst e)) (snd (snd e)))"
      by (auto split: if_splits)
    with "1.IH" [OF r e _ False] show ?thesis by blast
  qed
  then show ?case by (auto simp: child_def prefix_def)
qed simp_all

lemma files_of_entry_below:
  assumes "x \<in> set (if \<not> passes c k l then []
        else if n = File then [child p k]
        else if k \<in> set category_labels then []
        else files_under c (child p k) n)"
  shows "prefix (child p k) x"
  using assms files_under_below [of x c "child p k" n]
  by (auto split: if_splits)

lemma prefix_child_same: "prefix (child p a) x \<Longrightarrow> prefix (child p b) x \<Longrightarrow> a = b"
  by (auto simp: child_def prefix_def append_eq_append_conv2 Cons_eq_append_conv)

lemma distinct_concat_entries:
  assumes "distinct (map fst es)"
    and "\<And>e. e \<in> set es \<Longrightarrow> distinct (g e)"
    and "\<And>e x. e \<in> set es \<Longrightarrow> x \<in> set (g e) \<Longrightarrow> prefix (child p (fst e)) x"
  shows "distinct (concat (map g es))"
  using assms
proof (induction es)
  case Nil
  then show ?case by simp
next
  case (Cons a es)
  have "set (g a) \<inter> set (concat (map g es)) = {}"
  proof (rule ccontr)
    assume "set (g a) \<inter> set (concat (map g es)) \<noteq> {}"
    then obtain x e where x: "x \<in> set (g a)" "e \<in> set es" "x \<in> set (g e)" by auto
    with Cons.prems(3) [of a x] Cons.prems(3) [of e x]
    have "fst a = fst e" by (auto dest: prefix_child_same)
    with Cons.prems(1) x(2) show False by auto
  qed
  moreover have "distinct (concat (map g es))"
    using Cons.prems by (intro Cons.IH) auto
  ultimately show ?case using Cons.prems(2) [of a] by simp
qed

lemma files_under_distinct: "wf_node n \<Longrightarrow> distinct (files_under c p n)"
proof (induction c p n rule: files_under.induct)
  case (1 c p r w es)
  let ?g = "\<lambda>e. if \<not> passes c (fst e) (fst (snd e)) then []
        else if snd (snd e) = File then [child p (fst e)]
        else if fst e \<in> set category_labels then []
        else files_under c (child p (fst e)) (snd (snd e))"
  have "distinct (concat (map ?g es))" if r: "\<not> \<not> r"
  proof (rule distinct_concat_entries)
    show "distinct (map fst es)" using "1.prems" by simp
  next
    fix e assume e: "e \<in> set es"
    with "1.prems" have "wf_node (snd (snd e))" by simp
    with "1.IH" [OF r e] show "distinct (?g e)" by auto
  next
    fix e x assume "e \<in> set es" "x \<in> set (?g e)"
    then show "prefix (child p (fst e)) x"
      using files_of_entry_below [of x c "fst e" "fst (snd e)" "snd (snd e)" p] by simp
  qed
  then show ?case by simp
qed simp_all

lemma lines_moved: "length (moved ls) = length (filter is_move ls)"
proof (induction ls)
  case Nil
  then show ?case by (simp add: moved_def)
next
  case (Cons a ls)
  then show ?case by (cases a) (simp_all add: moved_def)
qed

lemma lines_sources:
  "length (sources ls) = length (filter is_move ls) + length (filter is_move_error ls)"
proof (induction ls)
  case Nil
  then show ?case by (simp add: sources_def)
next
  case (Cons a ls)
  then show ?case by (cases a) (simp_all add: sources_def)
qed

lemma distinct_among: "mset xs \<subseteq># mset ys \<Longrightarrow> distinct ys \<Longrightarrow> distinct xs"
proof -
  assume sub: "mset xs \<subseteq># mset ys" and d: "distinct ys"
  have "count (mset xs) a \<le> 1" for a
  proof -
    from sub have "count (mset xs) a \<le> count (mset ys) a" by (rule mset_subset_eq_count)
    also from d have "\<dots> \<le> 1" by (simp add: distinct_count_atmost_1)
    finally show ?thesis .
  qed
  then show "distinct xs" by (simp add: distinct_count_atmost_1 le_Suc_eq)
qed

lemma accounted_totals:
  assumes "accounted 0 st"
  shows "sum_list (map snd (summary st)) = length (moved (printed st))"
    and "sum_list (map snd (summary st)) \<le> processed st"
    and "length (sources (printed st)) \<le> processed st"
    and "processed st
           \<le> length (sources (printed st)) + length (filter is_failed_listing (printed st))"
    and "processed st = length (sources (printed st)) \<Longrightarrow>
           sum_list (map snd (summary st)) + length (filter is_move_error (printed st))
             = processed st"
  using assms lines_sources [of "printed st"]
  by (simp_all add: accounted_def lines_moved)

text \<open>
  C3, as the code has it.  The statement is about a tree in which no directory lists a
  name twice, whose root is a directory, and on which the walk goes through no symbolic
  link.  There the walk ends.  The files for which it reports a move (done, intended or
  failed) are told by the lines it prints: no file is reported twice, and every one of
  them is a regular file under the root that passes the hidden and symbolic-link
  filters, in directories that can be listed and are not named like a category.  The
  bucket of a category counts the files of that category whose move was done or, in a
  dry run, intended, so the buckets sum to the number of these moves and never to more
  than the number of files inspected; the files inspected are the files reported and at
  most one more for each failed pass over a directory.  When moreover the category
  directories can be made, the files reported are exactly the files described, each
  once, whether or not some directory could not be listed; the number of files
  inspected is their number; and the bucket counts and the number of failed moves add
  up to it.
\<close>

theorem files_handled_once_and_accounted:
  "entry_at fs0 (root c) = Some (l, Dir r w es) \<and> wf_node (Dir r w es)
     \<and> no_shared_links c es \<longrightarrow>
     (\<exists>st. organize_iterative c fs0 = Some (Inr st)
        \<and> distinct (sources (printed st))
        \<and> set (sources (printed st)) \<subseteq> set (files_under c (root c) (Dir r w es))
        \<and> (\<forall>cat. count_of (summary st) cat
               = length (filter (\<lambda>s. resolve_category (get_extension_lower s) = cat)
                   (moved (printed st))))
        \<and> sum_list (map snd (summary st)) = length (moved (printed st))
        \<and> sum_list (map snd (summary st)) \<le> processed st
        \<and> length (sources (printed st)) \<le> processed st
        \<and> processed st
              \<le> length (sources (printed st)) + length (filter is_failed_listing (printed st))
        \<and> (creatable c fs0 \<longrightarrow>
             mset (sources (printed st)) = mset (files_under c (root c) (Dir r w es))
             \<and> processed st = length (files_under c (root c) (Dir r w es))
             \<and> sum_list (map snd (summary st)) + length (filter is_move_error (printed st))
                   = processed st))"
proof
  assume a: "entry_at fs0 (root c) = Some (l, Dir r w es) \<and> wf_node (Dir r w es)
     \<and> no_shared_links c es"
  then have root: "entry_at fs0 (root c) = Some (l, Dir r w es)" and wf: "wf_node (Dir r w es)"
    by simp_all
  let ?fl = "files_under c (root c) (Dir r w es)"
  from organize_walks_root [OF root wf] obtain st
    where st: "organize_iterative c fs0 = Some (Inr st)"
      and sub: "mset (sources (printed st)) \<subseteq># mset ?fl"
      and all: "creatable c fs0 \<longrightarrow>
         mset (sources (printed st)) = mset ?fl \<and> processed st = length ?fl"
    by blast
  note acc = accounted_result [OF st]
  have d: "distinct (sources (printed st))"
    using sub files_under_distinct [OF wf] by (rule distinct_among)
  have s: "set (sources (printed st)) \<subseteq> set ?fl"
    using set_mset_mono [OF sub] by simp
  have b: "\<forall>cat. count_of (summary st) cat
               = length (filter (\<lambda>s. resolve_category (get_extension_lower s) = cat)
                   (moved (printed st)))"
    using acc by (simp add: accounted_def)
  have f: "mset (sources (printed st)) = mset ?fl \<and> processed st = length ?fl
      \<and> sum_list (map snd (summary st)) + length (filter is_move_error (printed st))
            = processed st"
    if "creatable c fs0"
  proof -
    from that all have e: "mset (sources (printed st)) = mset ?fl" "processed st = length ?fl"
      by simp_all
    from e(1) have "length (sources (printed st)) = length ?fl" by (rule mset_eq_length)
    with e(2) have "processed st = length (sources (printed st))" by simp
    from accounted_totals(5) [OF acc this] e show ?thesis by simp
  qed
  show "\<exists>st. organize_iterative c fs0 = Some (Inr st)
        \<and> distinct (sources (printed st))
        \<and> set (sources (printed st)) \<subseteq> set (files_under c (root c) (Dir r w es))
        \<and> (\<forall>cat. count_of (summary st) cat
               = length (filter (\<lambda>s. resolve_category (get_extension_lower s) = cat)
                   (moved (printed st))))
        \<and> sum_list (map snd (summary st)) = length (moved (printed st))
        \<and> sum_list (map snd (summary st)) \<le> processed st
        \<and> length (sources (printed st)) \<le> processed st
        \<and> processed st
              \<le> length (sources (printed st)) + length (filter is_failed_listing (printed st))
        \<and> (creatable c fs0 \<longrightarrow>
             mset (sources (printed st)) = mset (files_under c (root c) (Dir r w es))
             \<and> processed st = length (files_under c (root c) (Dir r w es))
             \<and> sum_list (map snd (summary st)) + length (filter is_move_error (printed st))
                   = processed st)"
    using st d s b accounted_totals(1-4) [OF acc] f by (intro exI [of _ st]) blast
qed

theorem files_handled_once_and_accounted_witness:
  "entry_at mixed_tree (root mixed_config) = Some (False, Dir True True mixed_home)
   \<and> wf_node (Dir True True mixed_home)
   \<and> no_shared_links mixed_config mixed_home
   \<and> creatable mixed_config mixed_tree
   \<and> (\<exists>st. organize_iterative mixed_config mixed_tree = Some (Inr st)
        \<and> length (filter is_failed_listing (printed st)) = 1
        \<and> distinct (sources (printed st))
        \<and> mset (sources (printed st))
            = {#[''home'', ''a.jpg''], [''home'', ''b.txt''], [''home'', ''sub'', ''d.mp3'']#}
        \<and> processed st = 3
        \<and> count_of (summary st) ''Documents'' = 1
        \<and> count_of (summary st) ''Audio'' = 1
        \<and> count_of (summary st) ''Images'' = 0
        \<and> sum_list (map snd (summary st)) = 2
        \<and> length (filter is_move_error (printed st)) = 1)"
proof -
  let ?c = "mixed_config"
  let ?fl = "files_under ?c (root ?c) (Dir True True mixed_home)"
  have h1: "entry_at mixed_tree (root ?c) = Some (False, Dir True True mixed_home)"
    by (simp add: mixed_tree_def mixed_config_def entry_at_def)
  have h2: "wf_node (Dir True True mixed_home)" by code_simp
  have h3: "no_shared_links ?c mixed_home" by code_simp
  have h4: "creatable ?c mixed_tree" by code_simp
  from files_handled_once_and_accounted [of mixed_tree ?c False True True mixed_home] h1 h2 h3
  obtain st where st: "organize_iterative ?c mixed_tree = Some (Inr st)"
    and d: "distinct (sources (printed st))"
    and b: "\<forall>cat. count_of (summary st) cat
               = length (filter (\<lambda>s. resolve_category (get_extension_lower s) = cat)
                   (moved (printed st)))"
    and cond: "creatable ?c mixed_tree \<longrightarrow>
             mset (sources (printed st)) = mset ?fl
             \<and> processed st = length ?fl
             \<and> sum_list (map snd (summary st)) + length (filter is_move_error (printed st))
                   = processed st"
    by blast
  from cond h4 have e: "mset (sources (printed st)) = mset ?fl" "processed st = length ?fl"
    "sum_list (map snd (summary st)) + length (filter is_move_error (printed st)) = processed st"
    by simp_all
  have fl: "?fl = [[''home'', ''a.jpg''], [''home'', ''b.txt''], [''home'', ''sub'', ''d.mp3'']]"
    by code_simp
  have "map_option (map_sum id (\<lambda>st. (length (filter is_failed_listing (printed st)),
            length (filter is_move_error (printed st)), moved (printed st))))
          (organize_iterative ?c mixed_tree)
        = Some (Inr (1, 1, [[''home'', ''b.txt''], [''home'', ''sub'', ''d.mp3'']]))"
    by code_simp
  with st have ev: "length (filter is_failed_listing (printed st)) = 1"
    "length (filter is_move_error (printed st)) = 1"
    "moved (printed st) = [[''home'', ''b.txt''], [''home'', ''sub'', ''d.mp3'']]"
    by simp_all
  have cats: "resolve_category (get_extension_lower [''home'', ''b.txt'']) = ''Documents''"
    "resolve_category (get_extension_lower [''home'', ''sub'', ''d.mp3'']) = ''Audio''"
    by code_simp+
  from b ev(3) cats have counts: "count_of (summary st) ''Documents'' = 1"
    "count_of (summary st) ''Audio'' = 1" "count_of (summary st) ''Images'' = 0"
    by simp_all
  from e ev fl have tot: "processed st = 3" "sum_list (map snd (summary st)) = 2"
    "mset (sources (printed st))
       = {#[''home'', ''a.jpg''], [''home'', ''b.txt''], [''home'', ''sub'', ''d.mp3'']#}"
    by simp_all
  from h1 h2 h3 h4 st d ev(1,2) counts tot show ?thesis by blast
qed

text \<open>
  C3 as stated fails: on the first example tree a real run inspects four files and counts three: the move
  of \<open>a.jpg\<close> into the read-only \<open>Images\<close> fails.  The file \<open>z.png\<close> inside \<open>Images\<close> is
  under the root and no filter rejects it, and it is not among the files handled.
\<close>

theorem bucket_sum_below_total:
  "map_option (map_sum id processed) (organize_iterative (demo_config False) demo_tree)
     = Some (Inr 4)
   \<and> map_option (map_sum id (sum_list \<circ> map snd \<circ> summary))
       (organize_iterative (demo_config False) demo_tree) = Some (Inr 3)
   \<and> is_file demo_tree [''home'', ''Images'', ''z.png'']
   \<and> map_option (map_sum id (sources \<circ> printed))
       (organize_iterative (demo_config False) demo_tree)
     = Some (Inr [[''home'', ''a.jpg''], [''home'', ''b.txt''], [''home'', ''c.unknownext''],
                  [''home'', ''sub'', ''d.mp3'']])"
  by code_simp

end
